theory Spec2Isabelle
  imports Main "HOL-Library.Word"
begin

unbundle bit_operations_syntax

section \<open>Data model\<close>

text \<open>
  The two class templates of \<^verbatim>\<open>include/RingBuffer.hpp\<close> and \<^verbatim>\<open>include/SPSC.hpp\<close> are
  embedded over machine words: \<^verbatim>\<open>std::size_t\<close> is that of a 64-bit target, \<open>64 word\<close>, so
  that \<open>+\<close> and \<open>-\<close> wrap around as the unsigned arithmetic of the source does and \<open>AND\<close>
  is the bitwise \<^verbatim>\<open>&\<close>. The template parameters \<^verbatim>\<open>Capacity\<close> and \<^verbatim>\<open>Policy\<close> are explicit
  arguments of every operation. The element type \<^verbatim>\<open>T\<close> is a type variable; the
  \<^verbatim>\<open>is_trivially_copyable\<close> assertion is a property of the C++ type and has no
  counterpart on HOL values, which are copied freely.

  The operations are embedded as they run in one thread of control: an atomic load is a
  read of the field, an atomic store a write, and \<^verbatim>\<open>compare_exchange_strong\<close> compares
  the field with the expected value, writes on equality and reloads the expected value
  otherwise. Memory orderings have no effect on such a run and are not represented.
\<close>

type_synonym size_t = "64 word"

datatype OverflowPolicy = Reject | Overwrite

text \<open>
  What the C++ leaves undefined or aborts on is a value of the model: an access to
  \<^verbatim>\<open>buffer_\<close> outside the array, and a failed \<^verbatim>\<open>assert\<close>.
\<close>

datatype fault = OutOfBounds | AssertionFailed

text \<open>The member \<^verbatim>\<open>buffer_\<close> is the field \<open>buffer\<close> (\<open>spsc_buffer\<close> in the second class).\<close>

record 'a RingBuffer =
  buffer :: "'a list"
  tail :: size_t
  head :: size_t

record 'a SPSCRingBuffer =
  spsc_buffer :: "'a list"
  spsc_tail :: size_t
  spsc_head :: size_t
  drop_count :: size_t

text \<open>\<^verbatim>\<open>static constexpr std::size_t Mask = Capacity - 1;\<close>\<close>

definition Mask :: "size_t \<Rightarrow> size_t" where
  "Mask Capacity = Capacity - 1"

text \<open>
  The condition of the second \<^verbatim>\<open>static_assert\<close>, the same in both classes:
  \<^verbatim>\<open>(Capacity != 0U) && ((Capacity & (Capacity - 1)) == 0)\<close>.
\<close>

definition capacity_assert :: "size_t \<Rightarrow> bool" where
  "capacity_assert Capacity \<longleftrightarrow> Capacity \<noteq> 0 \<and> Capacity AND (Capacity - 1) = 0"

text \<open>
  Instantiating and default-constructing the class: where the assertion fails there is no
  program and no instance (\<open>None\<close>); otherwise the members take their default member
  initialisers, \<^verbatim>\<open>buffer_ {}\<close> (every slot the value-initialised \<^verbatim>\<open>T\<close>, here \<open>dflt\<close>),
  \<^verbatim>\<open>tail { 0 }\<close>, \<^verbatim>\<open>head { 0 }\<close> and \<^verbatim>\<open>drop_count { 0 }\<close>.
\<close>

definition RingBuffer_new :: "size_t \<Rightarrow> 'a \<Rightarrow> 'a RingBuffer option" where
  "RingBuffer_new Capacity dflt =
     (if capacity_assert Capacity
      then Some \<lparr>buffer = replicate (unat Capacity) dflt, tail = 0, head = 0\<rparr>
      else None)"

definition SPSCRingBuffer_new :: "size_t \<Rightarrow> 'a \<Rightarrow> 'a SPSCRingBuffer option" where
  "SPSCRingBuffer_new Capacity dflt =
     (if capacity_assert Capacity
      then Some \<lparr>spsc_buffer = replicate (unat Capacity) dflt, spsc_tail = 0,
                 spsc_head = 0, drop_count = 0\<rparr>
      else None)"

subsection \<open>Slot accesses\<close>

text \<open>\<^verbatim>\<open>buffer_[i]\<close> as a read and as a write; outside the array it is a fault.\<close>

definition slot_read :: "'a list \<Rightarrow> size_t \<Rightarrow> fault + 'a" where
  "slot_read b i = (if unat i < length b then Inr (b ! unat i) else Inl OutOfBounds)"

definition slot_write :: "'a list \<Rightarrow> size_t \<Rightarrow> 'a \<Rightarrow> fault + 'a list" where
  "slot_write b i v = (if unat i < length b then Inr (b[unat i := v]) else Inl OutOfBounds)"

section \<open>RingBuffer\<close>

text \<open>
  The eviction loop of \<^verbatim>\<open>Push\<close> under \<^verbatim>\<open>Overwrite\<close>:
  \<^verbatim>\<open>
  while (!head.compare_exchange_strong(current_head, next_head, ...)) {
      if (next_tail != current_head) { break; }
      next_head = (current_head + 1) & Mask;
  }
  \<close>
  \<open>h\<close> is the value of the atomic \<^verbatim>\<open>head\<close>; the result is its value when the loop is
  left. A failed exchange loads \<open>h\<close> into \<^verbatim>\<open>current_head\<close>, so the exchange after it
  succeeds.
\<close>

function evict_loop :: "size_t \<Rightarrow> size_t \<Rightarrow> size_t \<Rightarrow> size_t \<Rightarrow> size_t \<Rightarrow> size_t" where
  "evict_loop M next_tail h current_head next_head =
     (if h = current_head then next_head
      else if next_tail \<noteq> h then h
      else evict_loop M next_tail h h ((h + 1) AND M))"
  by pat_completeness auto
termination
  by (relation "measure (\<lambda>(M, nt, h, ch, nh). if h = ch then 0 else 1)") auto

declare evict_loop.simps [simp del]

text \<open>
  \<^verbatim>\<open>Push\<close>: the result is the returned \<^verbatim>\<open>bool\<close> and the buffer after the call. Its last
  three statements, \<^verbatim>\<open>buffer_[current_tail] = value; tail.store(next_tail, ...); return true;\<close>,
  are \<open>store_and_publish\<close>.
\<close>

definition store_and_publish :: "'a RingBuffer \<Rightarrow> size_t \<Rightarrow> size_t \<Rightarrow> 'a \<Rightarrow> fault + (bool \<times> 'a RingBuffer)" where
  "store_and_publish rb current_tail next_tail v =
     (case slot_write (buffer rb) current_tail v of
        Inl e \<Rightarrow> Inl e
      | Inr b \<Rightarrow> Inr (True, rb\<lparr>buffer := b, tail := next_tail\<rparr>))"

definition Push :: "size_t \<Rightarrow> OverflowPolicy \<Rightarrow> 'a \<Rightarrow> 'a RingBuffer \<Rightarrow> fault + (bool \<times> 'a RingBuffer)" where
  "Push Capacity Policy v rb =
     (let current_tail = tail rb;
          next_tail = (current_tail + 1) AND Mask Capacity;
          current_head = head rb
      in if next_tail = current_head
         then (case Policy of
                 Reject \<Rightarrow> Inr (False, rb)
               | Overwrite \<Rightarrow>
                   let next_head = (current_head + 1) AND Mask Capacity
                   in store_and_publish
                        (rb\<lparr>head := evict_loop (Mask Capacity) next_tail (head rb) current_head next_head\<rparr>)
                        current_tail next_tail v)
         else store_and_publish rb current_tail next_tail v)"

text \<open>
  The loop of \<^verbatim>\<open>Pop\<close>, entered with \<^verbatim>\<open>current_head\<close>. The result is the popped value
  (\<open>Some v\<close> for \<^verbatim>\<open>return true\<close> with \<^verbatim>\<open>out_value = v\<close>, \<open>None\<close> for \<^verbatim>\<open>return false\<close>, which
  leaves \<^verbatim>\<open>out_value\<close> untouched) and the buffer after the call.
\<close>

function pop_loop :: "size_t \<Rightarrow> 'a RingBuffer \<Rightarrow> size_t \<Rightarrow> fault + ('a option \<times> 'a RingBuffer)" where
  "pop_loop M rb current_head =
     (if current_head = tail rb then Inr (None, rb)
      else case slot_read (buffer rb) current_head of
             Inl e \<Rightarrow> Inl e
           | Inr potential_value \<Rightarrow>
               if head rb = current_head
               then Inr (Some potential_value, rb\<lparr>head := (current_head + 1) AND M\<rparr>)
               else pop_loop M rb (head rb))"
  by pat_completeness auto
termination
  by (relation "measure (\<lambda>(M, rb, ch). if head rb = ch then 0 else 1)") auto

declare pop_loop.simps [simp del]

definition Pop :: "size_t \<Rightarrow> 'a RingBuffer \<Rightarrow> fault + ('a option \<times> 'a RingBuffer)" where
  "Pop Capacity rb = pop_loop (Mask Capacity) rb (head rb)"

definition Empty :: "'a RingBuffer \<Rightarrow> bool" where
  "Empty rb \<longleftrightarrow> head rb = tail rb"

definition Size :: "size_t \<Rightarrow> 'a RingBuffer \<Rightarrow> size_t" where
  "Size Capacity rb = (tail rb - head rb) AND Mask Capacity"

text \<open>
  \<^verbatim>\<open>Front\<close> is a \<^verbatim>\<open>const\<close> member: it returns a value and has no buffer to return. Its
  \<^verbatim>\<open>assert(!Empty())\<close> is taken as compiled in (a build without \<^verbatim>\<open>NDEBUG\<close>).
\<close>

definition Front :: "'a RingBuffer \<Rightarrow> fault + 'a" where
  "Front rb = (if Empty rb then Inl AssertionFailed else slot_read (buffer rb) (head rb))"

section \<open>SPSCRingBuffer\<close>

definition SPSC_Push :: "size_t \<Rightarrow> 'a \<Rightarrow> 'a SPSCRingBuffer \<Rightarrow> fault + (bool \<times> 'a SPSCRingBuffer)" where
  "SPSC_Push Capacity v s =
     (let curr_tail = spsc_tail s;
          next_tail = (curr_tail + 1) AND Mask Capacity
      in if next_tail = spsc_head s then Inr (False, s\<lparr>drop_count := drop_count s + 1\<rparr>)
         else case slot_write (spsc_buffer s) curr_tail v of
                Inl e \<Rightarrow> Inl e
              | Inr b \<Rightarrow> Inr (True, s\<lparr>spsc_buffer := b, spsc_tail := next_tail\<rparr>))"

definition SPSC_Pop :: "size_t \<Rightarrow> 'a SPSCRingBuffer \<Rightarrow> fault + ('a option \<times> 'a SPSCRingBuffer)" where
  "SPSC_Pop Capacity s =
     (let curr_head = spsc_head s
      in if curr_head = spsc_tail s then Inr (None, s)
         else case slot_read (spsc_buffer s) curr_head of
                Inl e \<Rightarrow> Inl e
              | Inr v \<Rightarrow> Inr (Some v, s\<lparr>spsc_head := (curr_head + 1) AND Mask Capacity\<rparr>))"

definition GetDropCount :: "'a SPSCRingBuffer \<Rightarrow> size_t" where
  "GetDropCount s = drop_count s"

definition SPSC_Empty :: "'a SPSCRingBuffer \<Rightarrow> bool" where
  "SPSC_Empty s \<longleftrightarrow> spsc_head s = spsc_tail s"

section \<open>Runs of operations\<close>

text \<open>
  A caller of the \<^verbatim>\<open>RingBuffer\<close> changes it through \<^verbatim>\<open>Push\<close> and \<^verbatim>\<open>Pop\<close> only
  (\<^verbatim>\<open>Front\<close>, \<^verbatim>\<open>Empty\<close> and \<^verbatim>\<open>Size\<close> are \<^verbatim>\<open>const\<close>). A run executes a list of such
  calls in order and collects what each returned; a fault ends it.
\<close>

datatype 'a rb_op = OpPush 'a | OpPop

datatype 'a rb_ret = RetPush bool | RetPop "'a option"

fun call :: "size_t \<Rightarrow> OverflowPolicy \<Rightarrow> 'a rb_op \<Rightarrow> 'a RingBuffer \<Rightarrow> fault + ('a rb_ret \<times> 'a RingBuffer)" where
  "call Capacity Policy (OpPush v) rb =
     (case Push Capacity Policy v rb of Inl e \<Rightarrow> Inl e | Inr (r, rb') \<Rightarrow> Inr (RetPush r, rb'))"
| "call Capacity Policy OpPop rb =
     (case Pop Capacity rb of Inl e \<Rightarrow> Inl e | Inr (r, rb') \<Rightarrow> Inr (RetPop r, rb'))"

fun run :: "size_t \<Rightarrow> OverflowPolicy \<Rightarrow> 'a rb_op list \<Rightarrow> 'a RingBuffer \<Rightarrow> fault + ('a rb_ret list \<times> 'a RingBuffer)" where
  "run Capacity Policy [] rb = Inr ([], rb)"
| "run Capacity Policy (op # ops) rb =
     (case call Capacity Policy op rb of
        Inl e \<Rightarrow> Inl e
      | Inr (r, rb') \<Rightarrow>
          (case run Capacity Policy ops rb' of
             Inl e \<Rightarrow> Inl e
           | Inr (rs, rb'') \<Rightarrow> Inr (r # rs, rb'')))"

text \<open>The states a program can bring a freshly constructed buffer into.\<close>

inductive reachable :: "size_t \<Rightarrow> OverflowPolicy \<Rightarrow> 'a \<Rightarrow> 'a RingBuffer \<Rightarrow> bool"
  for Capacity :: size_t and Policy :: OverflowPolicy and dflt :: 'a where
  reachable_new: "RingBuffer_new Capacity dflt = Some rb \<Longrightarrow> reachable Capacity Policy dflt rb"
| reachable_call: "reachable Capacity Policy dflt rb \<Longrightarrow> call Capacity Policy op rb = Inr (r, rb')
     \<Longrightarrow> reachable Capacity Policy dflt rb'"

text \<open>
  The same for the \<^verbatim>\<open>SPSCRingBuffer\<close>, whose whole interface is \<^verbatim>\<open>Push\<close>, \<^verbatim>\<open>Pop\<close>,
  \<^verbatim>\<open>GetDropCount\<close> and \<^verbatim>\<open>Empty\<close>; the two \<^verbatim>\<open>const\<close> members return the object as it was.
\<close>

datatype 'a spsc_op = SOpPush 'a | SOpPop | SOpGetDropCount | SOpEmpty

datatype 'a spsc_ret = SRetPush bool | SRetPop "'a option" | SRetGetDropCount size_t | SRetEmpty bool

fun spsc_call :: "size_t \<Rightarrow> 'a spsc_op \<Rightarrow> 'a SPSCRingBuffer \<Rightarrow> fault + ('a spsc_ret \<times> 'a SPSCRingBuffer)" where
  "spsc_call Capacity (SOpPush v) s =
     (case SPSC_Push Capacity v s of Inl e \<Rightarrow> Inl e | Inr (r, s') \<Rightarrow> Inr (SRetPush r, s'))"
| "spsc_call Capacity SOpPop s =
     (case SPSC_Pop Capacity s of Inl e \<Rightarrow> Inl e | Inr (r, s') \<Rightarrow> Inr (SRetPop r, s'))"
| "spsc_call Capacity SOpGetDropCount s = Inr (SRetGetDropCount (GetDropCount s), s)"
| "spsc_call Capacity SOpEmpty s = Inr (SRetEmpty (SPSC_Empty s), s)"

fun spsc_run :: "size_t \<Rightarrow> 'a spsc_op list \<Rightarrow> 'a SPSCRingBuffer \<Rightarrow> fault + ('a spsc_ret list \<times> 'a SPSCRingBuffer)" where
  "spsc_run Capacity [] s = Inr ([], s)"
| "spsc_run Capacity (op # ops) s =
     (case spsc_call Capacity op s of
        Inl e \<Rightarrow> Inl e
      | Inr (r, s') \<Rightarrow>
          (case spsc_run Capacity ops s' of
             Inl e \<Rightarrow> Inl e
           | Inr (rs, s'') \<Rightarrow> Inr (r # rs, s'')))"

inductive spsc_reachable :: "size_t \<Rightarrow> 'a \<Rightarrow> 'a SPSCRingBuffer \<Rightarrow> bool"
  for Capacity :: size_t and dflt :: 'a where
  spsc_reachable_new: "SPSCRingBuffer_new Capacity dflt = Some s \<Longrightarrow> spsc_reachable Capacity dflt s"
| spsc_reachable_call: "spsc_reachable Capacity dflt s \<Longrightarrow> spsc_call Capacity op s = Inr (r, s')
     \<Longrightarrow> spsc_reachable Capacity dflt s'"

section \<open>The queue a buffer holds\<close>

text \<open>
  Specification functions; none of them is in the source. The elements held are the slots
  from \<^verbatim>\<open>head\<close> up to \<^verbatim>\<open>tail\<close>, oldest first, \<open>(tail - head) & Mask\<close> of them. A buffer is
  full where \<^verbatim>\<open>Push\<close> finds \<^verbatim>\<open>next_tail == head\<close>.
\<close>

definition slots_between :: "size_t \<Rightarrow> 'a list \<Rightarrow> size_t \<Rightarrow> size_t \<Rightarrow> 'a list" where
  "slots_between M b h t = map (\<lambda>i. b ! unat ((h + of_nat i) AND M)) [0..<unat ((t - h) AND M)]"

definition contents :: "size_t \<Rightarrow> 'a RingBuffer \<Rightarrow> 'a list" where
  "contents Capacity rb = slots_between (Mask Capacity) (buffer rb) (head rb) (tail rb)"

definition spsc_contents :: "size_t \<Rightarrow> 'a SPSCRingBuffer \<Rightarrow> 'a list" where
  "spsc_contents Capacity s = slots_between (Mask Capacity) (spsc_buffer s) (spsc_head s) (spsc_tail s)"

definition Full :: "size_t \<Rightarrow> 'a RingBuffer \<Rightarrow> bool" where
  "Full Capacity rb \<longleftrightarrow> (tail rb + 1) AND Mask Capacity = head rb"

definition SPSC_Full :: "size_t \<Rightarrow> 'a SPSCRingBuffer \<Rightarrow> bool" where
  "SPSC_Full Capacity s \<longleftrightarrow> (spsc_tail s + 1) AND Mask Capacity = spsc_head s"

text \<open>The values a list of calls pushes, and the values its \<^verbatim>\<open>Pop\<close>s returned, in order.\<close>

fun pushed :: "'a rb_op list \<Rightarrow> 'a list" where
  "pushed [] = []"
| "pushed (OpPush v # ops) = v # pushed ops"
| "pushed (OpPop # ops) = pushed ops"

fun popped :: "'a rb_ret list \<Rightarrow> 'a list" where
  "popped [] = []"
| "popped (RetPop (Some v) # rs) = v # popped rs"
| "popped (r # rs) = popped rs"

fun spsc_pushed :: "'a spsc_op list \<Rightarrow> 'a list" where
  "spsc_pushed [] = []"
| "spsc_pushed (SOpPush v # ops) = v # spsc_pushed ops"
| "spsc_pushed (op # ops) = spsc_pushed ops"

fun spsc_popped :: "'a spsc_ret list \<Rightarrow> 'a list" where
  "spsc_popped [] = []"
| "spsc_popped (SRetPop (Some v) # rs) = v # spsc_popped rs"
| "spsc_popped (r # rs) = spsc_popped rs"

text \<open>No \<^verbatim>\<open>Push\<close> of the run is called on a full buffer (as far as the run gets).\<close>

fun never_full :: "size_t \<Rightarrow> OverflowPolicy \<Rightarrow> 'a rb_op list \<Rightarrow> 'a RingBuffer \<Rightarrow> bool" where
  "never_full Capacity Policy [] rb = True"
| "never_full Capacity Policy (op # ops) rb =
     ((case op of OpPush v \<Rightarrow> \<not> Full Capacity rb | OpPop \<Rightarrow> True) \<and>
      (case call Capacity Policy op rb of
         Inl e \<Rightarrow> True
       | Inr (r, rb') \<Rightarrow> never_full Capacity Policy ops rb'))"

fun spsc_never_full :: "size_t \<Rightarrow> 'a spsc_op list \<Rightarrow> 'a SPSCRingBuffer \<Rightarrow> bool" where
  "spsc_never_full Capacity [] s = True"
| "spsc_never_full Capacity (op # ops) s =
     ((case op of SOpPush v \<Rightarrow> \<not> SPSC_Full Capacity s | _ \<Rightarrow> True) \<and>
      (case spsc_call Capacity op s of
         Inl e \<Rightarrow> True
       | Inr (r, s') \<Rightarrow> spsc_never_full Capacity ops s'))"

text \<open>How many \<^verbatim>\<open>Push\<close> calls of a run returned \<^verbatim>\<open>false\<close>.\<close>

definition failed_pushes :: "'a spsc_ret list \<Rightarrow> nat" where
  "failed_pushes rs = length (filter (\<lambda>r. r = SRetPush False) rs)"

text \<open>
  The invariant of both classes: the array has \<^verbatim>\<open>Capacity\<close> slots and both indices
  are below \<^verbatim>\<open>Capacity\<close>.
\<close>

definition in_bounds :: "size_t \<Rightarrow> 'a list \<Rightarrow> size_t \<Rightarrow> size_t \<Rightarrow> bool" where
  "in_bounds Capacity b h t \<longleftrightarrow> length b = unat Capacity \<and> h < Capacity \<and> t < Capacity"

section \<open>Auxiliary lemmas\<close>

subsection \<open>Powers of two and the capacity assertion\<close>

lemma nat_pow2_of_and_pred:
  fixes n :: nat
  shows "0 < n \<Longrightarrow> n AND (n - 1) = 0 \<Longrightarrow> \<exists>k. n = 2 ^ k"
proof (induction n rule: less_induct)
  case (less n)
  show ?case
  proof (cases "even n")
    case True
    then obtain m where m: "n = 2 * m" by (elim evenE)
    with less.prems have m0: "0 < m" by simp
    have "n - 1 = 2 * (m - 1) + 1" using m m0 by simp
    then have "n AND (n - 1) = 2 * (m AND (m - 1))"
      using m by (simp add: and_nat_rec [of "2 * m"] del: mult_Suc_right)
    with less.prems have "m AND (m - 1) = 0" by simp
    moreover have "m < n" using m m0 by simp
    ultimately obtain k where "m = 2 ^ k" using less.IH m0 by blast
    then have "n = 2 ^ Suc k" using m by simp
    then show ?thesis by blast
  next
    case False
    then obtain m where m: "n = 2 * m + 1" by (elim oddE)
    then have "n AND (n - 1) = 2 * m"
      by (simp add: and_nat_rec [of "Suc (2 * m)"] del: mult_Suc_right)
    with less.prems have "m = 0" by simp
    then have "n = 2 ^ 0" using m by simp
    then show ?thesis by blast
  qed
qed

lemma capacity_assert_pow2:
  assumes "capacity_assert C"
  shows "\<exists>k<64. C = 2 ^ k"
proof -
  from assms have C0: "C \<noteq> 0" and A: "C AND (C - 1) = 0"
    by (simp_all add: capacity_assert_def)
  have "unat (C - 1) = unat C - 1" using C0 by (simp add: unat_minus_one)
  then have "unat C AND (unat C - 1) = unat (C AND (C - 1))"
    by (simp add: unsigned_and_eq)
  then have "unat C AND (unat C - 1) = 0" using A by simp
  moreover have "0 < unat C" using C0 by (simp add: unat_gt_0)
  ultimately obtain k where k: "unat C = 2 ^ k" using nat_pow2_of_and_pred by blast
  have "unat C < 2 ^ 64" using unsigned_less [of C] by simp
  with k have *: "(2::nat) ^ k < 2 ^ 64" by simp
  have "k < 64" by (rule power_less_imp_less_exp [where a = "2::nat"]) (simp, fact *)
  moreover have "C = 2 ^ k"
  proof -
    have "C = of_nat (unat C)" by simp
    also have "\<dots> = 2 ^ k" by (simp only: k) simp
    finally show ?thesis .
  qed
  ultimately show ?thesis by blast
qed

lemma pow2_capacity_assert:
  assumes "k < 64"
  shows "capacity_assert ((2::size_t) ^ k)"
proof -
  have "(2::size_t) ^ k \<noteq> 0" using assms by simp
  moreover have "(2::size_t) ^ k AND (2 ^ k - 1) = 0"
    by (simp add: take_bit_eq_0_iff flip: mask_eq_exp_minus_1 take_bit_eq_mask)
  ultimately show ?thesis by (simp add: capacity_assert_def)
qed

lemma Mask_pow2: "Mask (2 ^ k) = mask k"
  by (simp add: Mask_def mask_eq_exp_minus_1)

subsection \<open>Arithmetic of masked indices\<close>

lemma in_range_le: "x AND mask k = x \<longleftrightarrow> x \<le> mask k" for x :: size_t
proof
  assume "x AND mask k = x"
  then show "x \<le> mask k" by (metis word_and_le1)
next
  assume "x \<le> mask k"
  then have "uint x \<le> uint (mask k :: size_t)" by (simp add: word_le_def)
  also have "\<dots> = mask (min 64 k)" by (simp add: uint_mask_eq)
  also have "\<dots> = 2 ^ min 64 k - 1" by (simp only: mask_eq_exp_minus_1)
  also have "\<dots> \<le> 2 ^ k - 1"
  proof -
    have "(2::int) ^ min 64 k \<le> 2 ^ k" by (rule power_increasing) simp_all
    then show ?thesis by linarith
  qed
  finally have "uint x < 2 ^ k" by simp
  then show "x AND mask k = x" by (simp add: mask_eq_iff)
qed

lemma next_tail_eq_head_iff_mask:
  fixes h t :: size_t
  assumes "h AND mask k = h"
  shows "(t + 1) AND mask k = h \<longleftrightarrow> (t - h) AND mask k = mask k"
proof
  assume "(t + 1) AND mask k = h"
  then have "(t - h) AND mask k = (t - ((t + 1) AND mask k)) AND mask k" by simp
  also have "\<dots> = (t - (t + 1)) AND mask k" by (simp only: mask_eqs)
  also have "\<dots> = mask k" by simp
  finally show "(t - h) AND mask k = mask k" .
next
  assume A: "(t - h) AND mask k = mask k"
  have "(t + 1) AND mask k = ((t - h) + (h + 1)) AND mask k" by simp
  also have "\<dots> = (((t - h) AND mask k) + (h + 1)) AND mask k" by (simp only: mask_eqs)
  also have "\<dots> = (((- 1) AND mask k) + (h + 1)) AND mask k" using A by simp
  also have "\<dots> = (- 1 + (h + 1)) AND mask k" by (simp only: mask_eqs)
  also have "\<dots> = h" using assms by simp
  finally show "(t + 1) AND mask k = h" .
qed

lemma head_eq_tail_iff_mask:
  fixes h t :: size_t
  assumes "h AND mask k = h" "t AND mask k = t"
  shows "h = t \<longleftrightarrow> (t - h) AND mask k = 0"
proof
  assume "h = t" then show "(t - h) AND mask k = 0" by simp
next
  assume A: "(t - h) AND mask k = 0"
  have "t = ((t - h) + h) AND mask k" using assms by simp
  also have "\<dots> = (((t - h) AND mask k) + h) AND mask k" by (simp only: mask_eqs)
  also have "\<dots> = h" using A assms by simp
  finally show "h = t" by simp
qed

lemma in_range_inc:
  fixes s :: size_t
  assumes "s AND mask k = s" "s \<noteq> mask k"
  shows "(s + 1) AND mask k = s + 1" "unat (s + 1) = Suc (unat s)"
proof -
  have "s \<le> mask k" using assms(1) by (simp add: in_range_le)
  with assms(2) have lt: "s < mask k" by simp
  then have "s + 1 \<le> mask k" by (simp add: inc_le)
  then show "(s + 1) AND mask k = s + 1" by (simp add: in_range_le)
  from lt show "unat (s + 1) = Suc (unat s)"
    by unat_arith
qed

lemma in_range_dec:
  fixes s :: size_t
  assumes "s AND mask k = s" "s \<noteq> 0"
  shows "(s - 1) AND mask k = s - 1" "unat (s - 1) = unat s - 1"
proof -
  have "s \<le> mask k" using assms(1) by (simp add: in_range_le)
  moreover have "s - 1 \<le> s" using assms(2) by unat_arith
  ultimately have "s - 1 \<le> mask k" by simp
  then show "(s - 1) AND mask k = s - 1" by (simp add: in_range_le)
  show "unat (s - 1) = unat s - 1" using assms(2) by (simp add: unat_minus_one)
qed

lemma in_range_iff_less: "k < 64 \<Longrightarrow> x AND mask k = x \<longleftrightarrow> x < 2 ^ k" for x :: size_t
  by (simp add: mask_eq_iff_w2p word_size)

lemma pow2_less_64: "k < 64 \<Longrightarrow> (2::nat) ^ k < 2 ^ 64"
  by (rule power_strict_increasing) simp_all

lemma unat_pow2: 
  assumes "k < 64"
  shows "unat ((2::size_t) ^ k) = 2 ^ k"
proof -
  have "unat ((2::size_t) ^ k) = unat (of_nat (2 ^ k) :: size_t)" by simp
  also have "\<dots> = 2 ^ k mod 2 ^ 64" by (simp only: unat_of_nat) simp
  also have "\<dots> = 2 ^ k" using pow2_less_64 [OF assms] by (simp only: mod_less)
  finally show ?thesis .
qed

lemma in_range_unat: "k < 64 \<Longrightarrow> x AND mask k = x \<Longrightarrow> unat x < 2 ^ k" for x :: size_t
  using in_range_iff_less [of k x] by (simp add: word_less_nat_alt unat_pow2)

lemma and_mask_in_range: "(x AND mask k) AND mask k = x AND mask k" for x :: size_t
  by simp

lemma of_nat_in_range:
  assumes "k < 64" "i < 2 ^ k"
  shows "(of_nat i :: size_t) AND mask k = of_nat i" "unat (of_nat i :: size_t) = i"
proof -
  have i64: "i < 2 ^ 64" using pow2_less_64 [OF assms(1)] assms(2) by (rule less_trans [rotated])
  then show u: "unat (of_nat i :: size_t) = i" by (simp add: unat_of_nat)
  have "(of_nat i :: size_t) < 2 ^ k"
    using assms u by (simp add: word_less_nat_alt unat_pow2)
  then show "(of_nat i :: size_t) AND mask k = of_nat i" using assms(1) by (simp add: in_range_iff_less)
qed

lemma slot_index_inj:
  fixes h :: size_t
  assumes k: "k < 64" and i: "i < 2 ^ k" and j: "j < 2 ^ k"
    and eq: "(h + of_nat i) AND mask k = (h + of_nat j) AND mask k"
  shows "i = j"
proof -
  have "(of_nat i :: size_t) AND mask k = (((h + of_nat i) AND mask k) - h) AND mask k"
    by (simp only: mask_eqs) simp
  also have "\<dots> = (((h + of_nat j) AND mask k) - h) AND mask k" using eq by simp
  also have "\<dots> = (of_nat j :: size_t) AND mask k" by (simp only: mask_eqs) simp
  finally have "(of_nat i :: size_t) = of_nat j" using of_nat_in_range [OF k] i j by simp
  then have "unat (of_nat i :: size_t) = unat (of_nat j :: size_t)" by simp
  then show ?thesis using of_nat_in_range [OF k] i j by simp
qed

lemma size_tail:
  fixes h t :: size_t
  assumes "t AND mask k = t"
  shows "(h + ((t - h) AND mask k)) AND mask k = t"
proof -
  have "(h + ((t - h) AND mask k)) AND mask k = (h + (t - h)) AND mask k" by (simp only: mask_eqs)
  then show ?thesis using assms by simp
qed

lemma size_push:
  fixes h t :: size_t
  assumes "(t - h) AND mask k \<noteq> mask k"
  shows "(((t + 1) AND mask k) - h) AND mask k = ((t - h) AND mask k) + 1"
    and "unat ((((t + 1) AND mask k) - h) AND mask k) = Suc (unat ((t - h) AND mask k))"
proof -
  have "(((t + 1) AND mask k) - h) AND mask k = ((t + 1) - h) AND mask k" by (simp only: mask_eqs)
  also have "\<dots> = ((t - h) + 1) AND mask k" by (simp add: algebra_simps)
  also have "\<dots> = (((t - h) AND mask k) + 1) AND mask k" by (simp only: mask_eqs)
  also have "\<dots> = ((t - h) AND mask k) + 1" using assms by (simp add: in_range_inc(1))
  finally show *: "(((t + 1) AND mask k) - h) AND mask k = ((t - h) AND mask k) + 1" .
  show "unat ((((t + 1) AND mask k) - h) AND mask k) = Suc (unat ((t - h) AND mask k))"
    unfolding * by (rule in_range_inc(2) [of _ k]) (simp_all add: assms)
qed

lemma size_pop:
  fixes h t :: size_t
  assumes "(t - h) AND mask k \<noteq> 0"
  shows "(t - ((h + 1) AND mask k)) AND mask k = ((t - h) AND mask k) - 1"
    and "unat ((t - ((h + 1) AND mask k)) AND mask k) = unat ((t - h) AND mask k) - 1"
proof -
  have "(t - ((h + 1) AND mask k)) AND mask k = (t - (h + 1)) AND mask k" by (simp only: mask_eqs)
  also have "\<dots> = ((t - h) - 1) AND mask k" by (simp add: algebra_simps)
  also have "\<dots> = (((t - h) AND mask k) - 1) AND mask k" by (simp only: mask_eqs)
  also have "\<dots> = ((t - h) AND mask k) - 1" using assms by (simp add: in_range_dec(1))
  finally show *: "(t - ((h + 1) AND mask k)) AND mask k = ((t - h) AND mask k) - 1" .
  show "unat ((t - ((h + 1) AND mask k)) AND mask k) = unat ((t - h) AND mask k) - 1"
    unfolding * by (rule in_range_dec(2) [of _ k]) (simp_all add: assms)
qed

subsection \<open>The slots between head and tail\<close>

lemma slots_between_push:
  fixes h t :: size_t
  assumes k: "k < 64" and t: "t AND mask k = t"
    and nf: "(t - h) AND mask k \<noteq> mask k" and len: "unat t < length b"
  shows "slots_between (mask k) (b[unat t := v]) h ((t + 1) AND mask k)
         = slots_between (mask k) b h t @ [v]"
proof -
  define s where "s = (t - h) AND mask k"
  have s_range: "s AND mask k = s" by (simp add: s_def)
  have n_lt: "unat s < 2 ^ k" using in_range_unat [OF k s_range] .
  have last: "(h + of_nat (unat s)) AND mask k = t"
    using size_tail [OF t, of h] by (simp add: s_def)
  have other: "(h + of_nat i) AND mask k \<noteq> t" if "i < unat s" for i
  proof
    assume "(h + of_nat i) AND mask k = t"
    then have "(h + of_nat i) AND mask k = (h + of_nat (unat s)) AND mask k" using last by simp
    then have "i = unat s" using that n_lt by (intro slot_index_inj [OF k]) auto
    with that show False by simp
  qed
  have "map (\<lambda>i. b[unat t := v] ! unat ((h + of_nat i) AND mask k)) [0..<unat s]
        = map (\<lambda>i. b ! unat ((h + of_nat i) AND mask k)) [0..<unat s]"
  proof (rule map_cong [OF refl])
    fix i assume "i \<in> set [0..<unat s]"
    then have "i < unat s" by simp
    then have "unat ((h + of_nat i) AND mask k) \<noteq> unat t" using other by (simp add: word_unat_eq_iff)
    then show "b[unat t := v] ! unat ((h + of_nat i) AND mask k) = b ! unat ((h + of_nat i) AND mask k)"
      by simp
  qed
  moreover have "b[unat t := v] ! unat ((h + of_nat (unat s)) AND mask k) = v"
    unfolding last using len by simp
  ultimately show ?thesis
    unfolding slots_between_def size_push(2) [OF nf] s_def [symmetric] by simp
qed

lemma slots_between_pop:
  fixes h t :: size_t
  assumes h: "h AND mask k = h" and ne: "(t - h) AND mask k \<noteq> 0"
  shows "slots_between (mask k) b h t = b ! unat h # slots_between (mask k) b ((h + 1) AND mask k) t"
proof -
  define n where "n = unat ((t - h) AND mask k)"
  have "n \<noteq> 0" using ne by (simp add: n_def unat_eq_0)
  then obtain n' where n': "n = Suc n'" by (cases n) auto
  have idx: "(((h + 1) AND mask k) + of_nat i) AND mask k = (h + of_nat (Suc i)) AND mask k" for i
    by (simp only: mask_eqs) (simp add: algebra_simps)
  have "slots_between (mask k) b h t = map (\<lambda>i. b ! unat ((h + of_nat i) AND mask k)) [0..<Suc n']"
    by (simp add: slots_between_def n_def [symmetric] n')
  also have "\<dots> = b ! unat h # map (\<lambda>i. b ! unat ((h + of_nat (Suc i)) AND mask k)) [0..<n']"
    using h by (simp add: upt_conv_Cons map_Suc_upt [symmetric] del: upt_Suc of_nat_Suc)
  also have "map (\<lambda>i. b ! unat ((h + of_nat (Suc i)) AND mask k)) [0..<n']
             = slots_between (mask k) b ((h + 1) AND mask k) t"
    unfolding slots_between_def size_pop(2) [OF ne] n_def [symmetric] n' idx by simp
  finally show ?thesis .
qed

lemma length_slots_between: "length (slots_between M b h t) = unat ((t - h) AND M)"
  by (simp add: slots_between_def)

lemma slots_between_empty: "slots_between M b h h = []"
  by (simp add: slots_between_def)

subsection \<open>What each operation does\<close>

lemma capacity_cases:
  assumes "capacity_assert C"
  obtains k where "k < 64" "C = 2 ^ k" "Mask C = mask k" "unat C = 2 ^ k"
proof -
  from capacity_assert_pow2 [OF assms] obtain k where "k < 64" "C = 2 ^ k" by blast
  then show ?thesis using that [of k] by (simp add: Mask_pow2 unat_pow2)
qed

lemma and_Mask_less:
  assumes "capacity_assert C"
  shows "x AND Mask C < C"
proof -
  from assms obtain k where k: "k < 64" "C = 2 ^ k" "Mask C = mask k" by (rule capacity_cases)
  have "(x AND mask k) AND mask k = x AND mask k" by simp
  then show ?thesis using k in_range_iff_less [of k "x AND mask k"] by simp
qed

lemma less_and_Mask:
  assumes "capacity_assert C" "x < C"
  shows "x AND Mask C = x"
proof -
  from assms(1) obtain k where k: "k < 64" "C = 2 ^ k" "Mask C = mask k" by (rule capacity_cases)
  then show ?thesis using assms(2) in_range_iff_less [of k x] by simp
qed

lemma in_bounds_new:
  "capacity_assert C \<Longrightarrow> in_bounds C (replicate (unat C) d) 0 0"
  by (auto simp: in_bounds_def capacity_assert_def word_gt_0)

lemma in_bounds_index:
  "in_bounds C b h t \<Longrightarrow> unat h < length b \<and> unat t < length b"
  by (simp add: in_bounds_def word_less_nat_alt)

lemma evict_loop_first: "evict_loop M nt h h nh = nh"
  by (simp add: evict_loop.simps)

lemma Push_not_full:
  assumes "in_bounds C (buffer rb) (head rb) (tail rb)" "\<not> Full C rb"
  shows "Push C P v rb =
         Inr (True, rb\<lparr>buffer := (buffer rb)[unat (tail rb) := v], tail := (tail rb + 1) AND Mask C\<rparr>)"
  using assms in_bounds_index [OF assms(1)]
  by (simp add: Push_def Full_def store_and_publish_def slot_write_def Let_def)

lemma Push_full_Reject:
  assumes "Full C rb"
  shows "Push C Reject v rb = Inr (False, rb)"
  using assms by (simp add: Push_def Full_def Let_def)

lemma Push_full_Overwrite:
  assumes "in_bounds C (buffer rb) (head rb) (tail rb)" "Full C rb"
  shows "Push C Overwrite v rb =
         Inr (True, rb\<lparr>head := (head rb + 1) AND Mask C,
                        buffer := (buffer rb)[unat (tail rb) := v],
                        tail := (tail rb + 1) AND Mask C\<rparr>)"
  using assms in_bounds_index [OF assms(1)]
  by (simp add: Push_def Full_def store_and_publish_def slot_write_def evict_loop_first Let_def)

lemma Pop_empty:
  assumes "Empty rb"
  shows "Pop C rb = Inr (None, rb)"
  using assms by (simp add: Pop_def Empty_def pop_loop.simps)

lemma Pop_nonempty:
  assumes "in_bounds C (buffer rb) (head rb) (tail rb)" "\<not> Empty rb"
  shows "Pop C rb = Inr (Some (buffer rb ! unat (head rb)), rb\<lparr>head := (head rb + 1) AND Mask C\<rparr>)"
  using assms in_bounds_index [OF assms(1)]
  by (simp add: Pop_def Empty_def pop_loop.simps [of _ rb "head rb"] slot_read_def)

lemma SPSC_Push_not_full:
  assumes "in_bounds C (spsc_buffer s) (spsc_head s) (spsc_tail s)" "\<not> SPSC_Full C s"
  shows "SPSC_Push C v s =
         Inr (True, s\<lparr>spsc_buffer := (spsc_buffer s)[unat (spsc_tail s) := v],
                       spsc_tail := (spsc_tail s + 1) AND Mask C\<rparr>)"
  using assms in_bounds_index [OF assms(1)]
  by (simp add: SPSC_Push_def SPSC_Full_def slot_write_def Let_def)

lemma SPSC_Push_full:
  assumes "SPSC_Full C s"
  shows "SPSC_Push C v s = Inr (False, s\<lparr>drop_count := drop_count s + 1\<rparr>)"
  using assms by (simp add: SPSC_Push_def SPSC_Full_def Let_def)

lemma SPSC_Pop_empty:
  assumes "SPSC_Empty s"
  shows "SPSC_Pop C s = Inr (None, s)"
  using assms by (simp add: SPSC_Pop_def SPSC_Empty_def Let_def)

lemma SPSC_Pop_nonempty:
  assumes "in_bounds C (spsc_buffer s) (spsc_head s) (spsc_tail s)" "\<not> SPSC_Empty s"
  shows "SPSC_Pop C s = Inr (Some (spsc_buffer s ! unat (spsc_head s)),
                            s\<lparr>spsc_head := (spsc_head s + 1) AND Mask C\<rparr>)"
  using assms in_bounds_index [OF assms(1)]
  by (simp add: SPSC_Pop_def SPSC_Empty_def slot_read_def Let_def)

lemma call_cases:
  assumes "in_bounds C (buffer rb) (head rb) (tail rb)"
  obtains (push_ok) v where "op = OpPush v" "\<not> Full C rb"
      "call C P op rb = Inr (RetPush True,
         rb\<lparr>buffer := (buffer rb)[unat (tail rb) := v], tail := (tail rb + 1) AND Mask C\<rparr>)"
  | (push_reject) v where "op = OpPush v" "Full C rb" "P = Reject"
      "call C P op rb = Inr (RetPush False, rb)"
  | (push_overwrite) v where "op = OpPush v" "Full C rb" "P = Overwrite"
      "call C P op rb = Inr (RetPush True,
         rb\<lparr>head := (head rb + 1) AND Mask C,
            buffer := (buffer rb)[unat (tail rb) := v], tail := (tail rb + 1) AND Mask C\<rparr>)"
  | (pop_empty) "op = OpPop" "Empty rb" "call C P op rb = Inr (RetPop None, rb)"
  | (pop_ok) "op = OpPop" "\<not> Empty rb"
      "call C P op rb = Inr (RetPop (Some (buffer rb ! unat (head rb))),
         rb\<lparr>head := (head rb + 1) AND Mask C\<rparr>)"
proof (cases op)
  case (OpPush v)
  show ?thesis
  proof (cases "Full C rb")
    case False
    then show ?thesis using OpPush push_ok [of v] Push_not_full [OF assms False] by simp
  next
    case True
    then show ?thesis
      using OpPush push_reject [of v] push_overwrite [of v]
        Push_full_Reject [OF True] Push_full_Overwrite [OF assms True]
      by (cases P) simp_all
  qed
next
  case OpPop
  then show ?thesis
    using pop_empty pop_ok Pop_empty [of rb C] Pop_nonempty [OF assms]
    by (cases "Empty rb") simp_all
qed

lemma spsc_call_cases:
  assumes "in_bounds C (spsc_buffer s) (spsc_head s) (spsc_tail s)"
  obtains (push_ok) v where "op = SOpPush v" "\<not> SPSC_Full C s"
      "spsc_call C op s = Inr (SRetPush True,
         s\<lparr>spsc_buffer := (spsc_buffer s)[unat (spsc_tail s) := v],
           spsc_tail := (spsc_tail s + 1) AND Mask C\<rparr>)"
  | (push_drop) v where "op = SOpPush v" "SPSC_Full C s"
      "spsc_call C op s = Inr (SRetPush False, s\<lparr>drop_count := drop_count s + 1\<rparr>)"
  | (pop_empty) "op = SOpPop" "SPSC_Empty s" "spsc_call C op s = Inr (SRetPop None, s)"
  | (pop_ok) "op = SOpPop" "\<not> SPSC_Empty s"
      "spsc_call C op s = Inr (SRetPop (Some (spsc_buffer s ! unat (spsc_head s))),
         s\<lparr>spsc_head := (spsc_head s + 1) AND Mask C\<rparr>)"
  | (get_drop_count) "op = SOpGetDropCount" "spsc_call C op s = Inr (SRetGetDropCount (drop_count s), s)"
  | (empty) "op = SOpEmpty" "spsc_call C op s = Inr (SRetEmpty (SPSC_Empty s), s)"
proof (cases op)
  case (SOpPush v)
  then show ?thesis
    using push_ok [of v] push_drop [of v] SPSC_Push_not_full [OF assms] SPSC_Push_full [of C s]
    by (cases "SPSC_Full C s") simp_all
next
  case SOpPop
  then show ?thesis
    using pop_empty pop_ok SPSC_Pop_empty [of s C] SPSC_Pop_nonempty [OF assms]
    by (cases "SPSC_Empty s") simp_all
next
  case SOpGetDropCount
  then show ?thesis using get_drop_count by (simp add: GetDropCount_def)
next
  case SOpEmpty
  then show ?thesis using empty by simp
qed

lemma reachable_in_bounds:
  assumes "reachable C P d rb"
  shows "capacity_assert C \<and> in_bounds C (buffer rb) (head rb) (tail rb)"
  using assms
proof (induction rule: reachable.induct)
  case (reachable_new rb)
  then show ?case
    by (auto simp: RingBuffer_new_def in_bounds_new split: if_splits)
next
  case (reachable_call rb op r rb')
  then have cap: "capacity_assert C" and ib: "in_bounds C (buffer rb) (head rb) (tail rb)" by simp_all
  from ib show ?case
  proof (cases rule: call_cases [where op = op and P = P])
    case (push_ok v)
    then show ?thesis using reachable_call.hyps(2) cap ib by (auto simp: in_bounds_def and_Mask_less)
  next
    case (push_reject v)
    then show ?thesis using reachable_call.hyps(2) cap ib by auto
  next
    case (push_overwrite v)
    then show ?thesis using reachable_call.hyps(2) cap ib by (auto simp: in_bounds_def and_Mask_less)
  next
    case pop_empty
    then show ?thesis using reachable_call.hyps(2) cap ib by auto
  next
    case pop_ok
    then show ?thesis using reachable_call.hyps(2) cap ib by (auto simp: in_bounds_def and_Mask_less)
  qed
qed

lemma spsc_reachable_in_bounds:
  assumes "spsc_reachable C d s"
  shows "capacity_assert C \<and> in_bounds C (spsc_buffer s) (spsc_head s) (spsc_tail s)"
  using assms
proof (induction rule: spsc_reachable.induct)
  case (spsc_reachable_new s)
  then show ?case
    by (auto simp: SPSCRingBuffer_new_def in_bounds_new split: if_splits)
next
  case (spsc_reachable_call s op r s')
  then have cap: "capacity_assert C" and ib: "in_bounds C (spsc_buffer s) (spsc_head s) (spsc_tail s)"
    by simp_all
  from ib show ?case
    using spsc_reachable_call.hyps(2) cap ib
    by (cases rule: spsc_call_cases [where op = op]) (auto simp: in_bounds_def and_Mask_less)
qed

subsection \<open>Indices and sizes at a valid capacity\<close>

lemma in_bounds_range:
  assumes "capacity_assert C" "in_bounds C b h t"
  shows "h AND Mask C = h" "t AND Mask C = t"
  using assms by (simp_all add: in_bounds_def less_and_Mask)

lemma next_tail_eq_head_iff:
  assumes "capacity_assert C" "in_bounds C b h t"
  shows "(t + 1) AND Mask C = h \<longleftrightarrow> (t - h) AND Mask C = Mask C"
proof -
  from assms(1) obtain k where k: "k < 64" "C = 2 ^ k" "Mask C = mask k" by (rule capacity_cases)
  show ?thesis using next_tail_eq_head_iff_mask [of h k t] in_bounds_range [OF assms] by (simp add: k(3))
qed

lemma head_eq_tail_iff:
  assumes "capacity_assert C" "in_bounds C b h t"
  shows "h = t \<longleftrightarrow> (t - h) AND Mask C = 0"
proof -
  from assms(1) obtain k where k: "k < 64" "C = 2 ^ k" "Mask C = mask k" by (rule capacity_cases)
  show ?thesis using head_eq_tail_iff_mask [of h k t] in_bounds_range [OF assms] by (simp add: k(3))
qed

lemma Size_le_Mask: "(t - h) AND Mask C \<le> Mask C" for t h :: size_t
  by (rule word_and_le1)

lemma unat_Mask:
  assumes "capacity_assert C"
  shows "unat (Mask C) = unat C - 1"
  using assms by (simp add: Mask_def capacity_assert_def unat_minus_one)

lemma slots_between_Push:
  assumes "capacity_assert C" "in_bounds C b h t" "(t + 1) AND Mask C \<noteq> h"
  shows "slots_between (Mask C) (b[unat t := v]) h ((t + 1) AND Mask C)
         = slots_between (Mask C) b h t @ [v]"
proof -
  from assms(1) obtain k where k: "k < 64" "C = 2 ^ k" "Mask C = mask k" by (rule capacity_cases)
  have "(t - h) AND mask k \<noteq> mask k"
    using next_tail_eq_head_iff [OF assms(1,2)] assms(3) by (simp add: k(3))
  then show ?thesis
    using slots_between_push [OF k(1), of t h b v] in_bounds_range [OF assms(1,2)]
      in_bounds_index [OF assms(2)]
    by (simp add: k(3))
qed

lemma slots_between_Pop:
  assumes "capacity_assert C" "in_bounds C b h t" "h \<noteq> t"
  shows "slots_between (Mask C) b h t = b ! unat h # slots_between (Mask C) b ((h + 1) AND Mask C) t"
proof -
  from assms(1) obtain k where k: "k < 64" "C = 2 ^ k" "Mask C = mask k" by (rule capacity_cases)
  have "(t - h) AND mask k \<noteq> 0"
    using head_eq_tail_iff [OF assms(1,2)] assms(3) by (simp add: k(3))
  then show ?thesis
    using slots_between_pop [of h k t b] in_bounds_range [OF assms(1,2)]
    by (simp add: k(3))
qed

lemma Size_Push:
  assumes "capacity_assert C" "in_bounds C b h t" "(t + 1) AND Mask C \<noteq> h"
  shows "(((t + 1) AND Mask C) - h) AND Mask C = ((t - h) AND Mask C) + 1"
proof -
  from assms(1) obtain k where k: "k < 64" "C = 2 ^ k" "Mask C = mask k" by (rule capacity_cases)
  have "(t - h) AND mask k \<noteq> mask k"
    using next_tail_eq_head_iff [OF assms(1,2)] assms(3) by (simp add: k(3))
  then show ?thesis using size_push(1) [of t h k] by (simp add: k(3))
qed

lemma Size_Pop:
  assumes "capacity_assert C" "in_bounds C b h t" "h \<noteq> t"
  shows "(t - ((h + 1) AND Mask C)) AND Mask C = ((t - h) AND Mask C) - 1"
proof -
  from assms(1) obtain k where k: "k < 64" "C = 2 ^ k" "Mask C = mask k" by (rule capacity_cases)
  have "(t - h) AND mask k \<noteq> 0"
    using head_eq_tail_iff [OF assms(1,2)] assms(3) by (simp add: k(3))
  then show ?thesis using size_pop(1) [of t h k] by (simp add: k(3))
qed

lemma Size_Overwrite:
  fixes t h :: size_t
  assumes "capacity_assert C"
  shows "(((t + 1) AND Mask C) - ((h + 1) AND Mask C)) AND Mask C = (t - h) AND Mask C"
proof -
  from assms(1) obtain k where k: "k < 64" "C = 2 ^ k" "Mask C = mask k" by (rule capacity_cases)
  have "(((t + 1) AND mask k) - ((h + 1) AND mask k)) AND mask k = (t - h) AND mask k"
    by (simp only: mask_eqs) simp
  then show ?thesis by (simp add: k(3))
qed

lemma in_bounds_step:
  assumes "capacity_assert C" "in_bounds C b h t"
  shows "in_bounds C (b[i := v]) h ((t + 1) AND Mask C)"
    and "in_bounds C b ((h + 1) AND Mask C) t"
    and "in_bounds C (b[i := v]) ((h + 1) AND Mask C) ((t + 1) AND Mask C)"
  using assms by (simp_all add: in_bounds_def and_Mask_less)

lemma slots_between_Overwrite:
  assumes cap: "capacity_assert C" and ib: "in_bounds C b h t"
    and full: "(t + 1) AND Mask C = h" and C1: "C \<noteq> 1"
  shows "slots_between (Mask C) (b[unat t := v]) ((h + 1) AND Mask C) ((t + 1) AND Mask C)
         = tl (slots_between (Mask C) b h t) @ [v]"
proof -
  have size: "(t - h) AND Mask C = Mask C" using next_tail_eq_head_iff [OF cap ib] full by simp
  have M0: "Mask C \<noteq> 0" using C1 by (simp add: Mask_def)
  have ne: "h \<noteq> t" using head_eq_tail_iff [OF cap ib] size M0 by simp
  have ib': "in_bounds C b ((h + 1) AND Mask C) t" using in_bounds_step(2) [OF cap ib] .
  have "(t - ((h + 1) AND Mask C)) AND Mask C = Mask C - 1"
    using Size_Pop [OF cap ib ne] size by simp
  moreover have "Mask C - 1 \<noteq> Mask C" by simp
  ultimately have nf: "(t + 1) AND Mask C \<noteq> (h + 1) AND Mask C"
    using next_tail_eq_head_iff [OF cap ib'] by simp
  show ?thesis
    using slots_between_Push [OF cap ib' nf, of v] slots_between_Pop [OF cap ib ne] by simp
qed

subsection \<open>Runs on the RingBuffer\<close>

lemma run_append:
  "run C P (ops1 @ ops2) rb =
     (case run C P ops1 rb of
        Inl e \<Rightarrow> Inl e
      | Inr (rs1, rb1) \<Rightarrow>
          (case run C P ops2 rb1 of
             Inl e \<Rightarrow> Inl e
           | Inr (rs2, rb2) \<Rightarrow> Inr (rs1 @ rs2, rb2)))"
  by (induction ops1 arbitrary: rb) (auto split: sum.splits prod.splits)

lemma run_reachable:
  "reachable C P d rb \<Longrightarrow> run C P ops rb = Inr (rs, rb') \<Longrightarrow> reachable C P d rb'"
proof (induction ops arbitrary: rb rs)
  case Nil
  then show ?case by simp
next
  case (Cons op ops)
  then show ?case
    by (auto split: sum.splits prod.splits intro: reachable_call)
qed

lemma Full_iff_Size:
  assumes "capacity_assert C" "in_bounds C (buffer rb) (head rb) (tail rb)"
  shows "Full C rb \<longleftrightarrow> Size C rb = Mask C"
  using next_tail_eq_head_iff [OF assms] by (simp add: Full_def Size_def)

lemma Empty_iff_Size:
  assumes "capacity_assert C" "in_bounds C (buffer rb) (head rb) (tail rb)"
  shows "Empty rb \<longleftrightarrow> Size C rb = 0"
  using head_eq_tail_iff [OF assms] by (simp add: Empty_def Size_def)

lemma length_contents: "length (contents C rb) = unat (Size C rb)"
  by (simp add: contents_def Size_def length_slots_between)

lemma Full_iff_length:
  assumes "capacity_assert C" "in_bounds C (buffer rb) (head rb) (tail rb)"
  shows "Full C rb \<longleftrightarrow> length (contents C rb) = unat C - 1"
  using Full_iff_Size [OF assms] unat_Mask [OF assms(1)]
  by (simp add: length_contents word_unat_eq_iff)

lemma Empty_iff_contents:
  assumes "capacity_assert C" "in_bounds C (buffer rb) (head rb) (tail rb)"
  shows "Empty rb \<longleftrightarrow> contents C rb = []"
  using Empty_iff_Size [OF assms] length_contents [of C rb]
  by (simp add: unat_eq_0 flip: length_0_conv)

text \<open>One call, seen on the queue.\<close>

lemma call_queue:
  assumes cap: "capacity_assert C" and ib: "in_bounds C (buffer rb) (head rb) (tail rb)"
    and nf: "(case op of OpPush v \<Rightarrow> \<not> Full C rb | OpPop \<Rightarrow> True)"
  shows "\<exists>r rb'. call C P op rb = Inr (r, rb') \<and> in_bounds C (buffer rb') (head rb') (tail rb')
           \<and> r \<noteq> RetPush False
           \<and> contents C rb @ pushed [op] = popped [r] @ contents C rb'"
  using ib
proof (cases rule: call_cases [where op = op and P = P])
  case (push_ok v)
  then show ?thesis
    using slots_between_Push [OF cap ib, of v] in_bounds_step(1) [OF cap ib]
    by (simp add: contents_def Full_def)
next
  case (push_reject v)
  then show ?thesis using nf by simp
next
  case (push_overwrite v)
  then show ?thesis using nf by simp
next
  case pop_empty
  then show ?thesis using ib by simp
next
  case pop_ok
  then show ?thesis
    using slots_between_Pop [OF cap ib] in_bounds_step(2) [OF cap ib]
    by (simp add: contents_def Empty_def)
qed

lemma run_queue:
  assumes cap: "capacity_assert C"
  shows "in_bounds C (buffer rb) (head rb) (tail rb) \<Longrightarrow> never_full C P ops rb \<Longrightarrow>
         \<exists>rs rb'. run C P ops rb = Inr (rs, rb') \<and> RetPush False \<notin> set rs
           \<and> contents C rb @ pushed ops = popped rs @ contents C rb'"
proof (induction ops arbitrary: rb)
  case Nil
  then show ?case by simp
next
  case (Cons op ops)
  from Cons.prems(2) have nf: "(case op of OpPush v \<Rightarrow> \<not> Full C rb | OpPop \<Rightarrow> True)" by simp
  from call_queue [OF cap Cons.prems(1) nf, of P] obtain r rb1 where
    c: "call C P op rb = Inr (r, rb1)" and ib1: "in_bounds C (buffer rb1) (head rb1) (tail rb1)"
    and r: "r \<noteq> RetPush False"
    and q: "contents C rb @ pushed [op] = popped [r] @ contents C rb1" by blast
  from Cons.prems(2) c have "never_full C P ops rb1" by simp
  from Cons.IH [OF ib1 this] obtain rs rb' where
    run: "run C P ops rb1 = Inr (rs, rb')" and rs: "RetPush False \<notin> set rs"
    and q': "contents C rb1 @ pushed ops = popped rs @ contents C rb'" by blast
  have p1: "pushed (op # ops) = pushed [op] @ pushed ops" by (cases op) simp_all
  have p2: "popped (r # rs) = popped [r] @ popped rs"
    by (cases "(r # rs)" rule: popped.cases) simp_all
  have "contents C rb @ pushed (op # ops) = popped (r # rs) @ contents C rb'"
    unfolding p1 p2 using q q' by (metis append.assoc)
  then show ?case using c run r rs by auto
qed

lemma run_pushes:
  assumes cap: "capacity_assert C"
  shows "in_bounds C (buffer rb) (head rb) (tail rb) \<Longrightarrow>
         length (contents C rb) + length xs < unat C \<Longrightarrow>
         \<exists>rb'. run C P (map OpPush xs) rb = Inr (map (\<lambda>x. RetPush True) xs, rb')
           \<and> in_bounds C (buffer rb') (head rb') (tail rb')
           \<and> contents C rb' = contents C rb @ xs"
proof (induction xs arbitrary: rb)
  case Nil
  then show ?case by simp
next
  case (Cons x xs)
  have nf: "\<not> Full C rb" using Full_iff_length [OF cap Cons.prems(1)] Cons.prems(2) by simp
  define rb1 where "rb1 = rb\<lparr>buffer := (buffer rb)[unat (tail rb) := x], tail := (tail rb + 1) AND Mask C\<rparr>"
  have c: "Push C P x rb = Inr (True, rb1)"
    using Push_not_full [OF Cons.prems(1) nf] by (simp add: rb1_def)
  have ib1: "in_bounds C (buffer rb1) (head rb1) (tail rb1)"
    using in_bounds_step(1) [OF cap Cons.prems(1)] by (simp add: rb1_def)
  have q: "contents C rb1 = contents C rb @ [x]"
    using slots_between_Push [OF cap Cons.prems(1), of x] nf by (simp add: contents_def rb1_def Full_def)
  have "length (contents C rb1) + length xs < unat C" using q Cons.prems(2) by simp
  from Cons.IH [OF ib1 this] obtain rb' where
    "run C P (map OpPush xs) rb1 = Inr (map (\<lambda>x. RetPush True) xs, rb')"
    "in_bounds C (buffer rb') (head rb') (tail rb')" "contents C rb' = contents C rb1 @ xs" by blast
  then show ?case using c q by simp
qed

lemma run_pops:
  assumes cap: "capacity_assert C"
  shows "in_bounds C (buffer rb) (head rb) (tail rb) \<Longrightarrow> contents C rb = xs \<Longrightarrow>
         \<exists>rb'. run C P (replicate (length xs) OpPop) rb = Inr (map (\<lambda>x. RetPop (Some x)) xs, rb')
           \<and> in_bounds C (buffer rb') (head rb') (tail rb') \<and> Empty rb'"
proof (induction xs arbitrary: rb)
  case Nil
  then show ?case using Empty_iff_contents [OF cap Nil(1)] by simp
next
  case (Cons x xs)
  have ne: "\<not> Empty rb" using Empty_iff_contents [OF cap Cons.prems(1)] Cons.prems(2) by simp
  define rb1 where "rb1 = rb\<lparr>head := (head rb + 1) AND Mask C\<rparr>"
  have c: "Pop C rb = Inr (Some (buffer rb ! unat (head rb)), rb1)"
    using Pop_nonempty [OF Cons.prems(1) ne] by (simp add: rb1_def)
  have ib1: "in_bounds C (buffer rb1) (head rb1) (tail rb1)"
    using in_bounds_step(2) [OF cap Cons.prems(1)] by (simp add: rb1_def)
  have q: "contents C rb = buffer rb ! unat (head rb) # contents C rb1"
    using slots_between_Pop [OF cap Cons.prems(1)] ne by (simp add: contents_def rb1_def Empty_def)
  with Cons.prems(2) have x: "buffer rb ! unat (head rb) = x" and q1: "contents C rb1 = xs" by simp_all
  from Cons.IH [OF ib1 q1] obtain rb' where
    "run C P (replicate (length xs) OpPop) rb1 = Inr (map (\<lambda>x. RetPop (Some x)) xs, rb')"
    "in_bounds C (buffer rb') (head rb') (tail rb')" "Empty rb'" by blast
  then show ?case using c x by simp
qed

subsection \<open>Runs on the SPSCRingBuffer\<close>

lemma spsc_run_append:
  "spsc_run C (ops1 @ ops2) s =
     (case spsc_run C ops1 s of
        Inl e \<Rightarrow> Inl e
      | Inr (rs1, s1) \<Rightarrow>
          (case spsc_run C ops2 s1 of
             Inl e \<Rightarrow> Inl e
           | Inr (rs2, s2) \<Rightarrow> Inr (rs1 @ rs2, s2)))"
  by (induction ops1 arbitrary: s) (auto split: sum.splits prod.splits)

lemma spsc_run_reachable:
  "spsc_reachable C d s \<Longrightarrow> spsc_run C ops s = Inr (rs, s') \<Longrightarrow> spsc_reachable C d s'"
proof (induction ops arbitrary: s rs)
  case Nil
  then show ?case by simp
next
  case (Cons op ops)
  then show ?case
    by (auto split: sum.splits prod.splits intro: spsc_reachable_call)
qed

lemma length_spsc_contents:
  "length (spsc_contents C s) = unat ((spsc_tail s - spsc_head s) AND Mask C)"
  by (simp add: spsc_contents_def length_slots_between)

lemma SPSC_Full_iff_length:
  assumes "capacity_assert C" "in_bounds C (spsc_buffer s) (spsc_head s) (spsc_tail s)"
  shows "SPSC_Full C s \<longleftrightarrow> length (spsc_contents C s) = unat C - 1"
  using next_tail_eq_head_iff [OF assms] unat_Mask [OF assms(1)]
  by (simp add: SPSC_Full_def length_spsc_contents word_unat_eq_iff)

lemma SPSC_Empty_iff_contents:
  assumes "capacity_assert C" "in_bounds C (spsc_buffer s) (spsc_head s) (spsc_tail s)"
  shows "SPSC_Empty s \<longleftrightarrow> spsc_contents C s = []"
  using head_eq_tail_iff [OF assms] length_spsc_contents [of C s]
  by (simp add: SPSC_Empty_def unat_eq_0 flip: length_0_conv)

lemma spsc_call_queue:
  assumes cap: "capacity_assert C" and ib: "in_bounds C (spsc_buffer s) (spsc_head s) (spsc_tail s)"
    and nf: "(case op of SOpPush v \<Rightarrow> \<not> SPSC_Full C s | _ \<Rightarrow> True)"
  shows "\<exists>r s'. spsc_call C op s = Inr (r, s')
           \<and> in_bounds C (spsc_buffer s') (spsc_head s') (spsc_tail s')
           \<and> r \<noteq> SRetPush False \<and> drop_count s' = drop_count s
           \<and> spsc_contents C s @ spsc_pushed [op] = spsc_popped [r] @ spsc_contents C s'"
  using ib
proof (cases rule: spsc_call_cases [where op = op])
  case (push_ok v)
  then show ?thesis
    using slots_between_Push [OF cap ib, of v] in_bounds_step(1) [OF cap ib]
    by (simp add: spsc_contents_def SPSC_Full_def)
next
  case (push_drop v)
  then show ?thesis using nf by simp
next
  case pop_empty
  then show ?thesis using ib by simp
next
  case pop_ok
  then show ?thesis
    using slots_between_Pop [OF cap ib] in_bounds_step(2) [OF cap ib]
    by (simp add: spsc_contents_def SPSC_Empty_def)
next
  case get_drop_count
  then show ?thesis using ib by simp
next
  case empty
  then show ?thesis using ib by simp
qed

lemma spsc_run_queue:
  assumes cap: "capacity_assert C"
  shows "in_bounds C (spsc_buffer s) (spsc_head s) (spsc_tail s) \<Longrightarrow> spsc_never_full C ops s \<Longrightarrow>
         \<exists>rs s'. spsc_run C ops s = Inr (rs, s') \<and> SRetPush False \<notin> set rs
           \<and> drop_count s' = drop_count s
           \<and> spsc_contents C s @ spsc_pushed ops = spsc_popped rs @ spsc_contents C s'"
proof (induction ops arbitrary: s)
  case Nil
  then show ?case by simp
next
  case (Cons op ops)
  from Cons.prems(2) have nf: "(case op of SOpPush v \<Rightarrow> \<not> SPSC_Full C s | _ \<Rightarrow> True)" by simp
  from spsc_call_queue [OF cap Cons.prems(1) nf] obtain r s1 where
    c: "spsc_call C op s = Inr (r, s1)"
    and ib1: "in_bounds C (spsc_buffer s1) (spsc_head s1) (spsc_tail s1)"
    and r: "r \<noteq> SRetPush False" and d: "drop_count s1 = drop_count s"
    and q: "spsc_contents C s @ spsc_pushed [op] = spsc_popped [r] @ spsc_contents C s1" by blast
  from Cons.prems(2) c have "spsc_never_full C ops s1" by simp
  from Cons.IH [OF ib1 this] obtain rs s' where
    run: "spsc_run C ops s1 = Inr (rs, s')" and rs: "SRetPush False \<notin> set rs"
    and d': "drop_count s' = drop_count s1"
    and q': "spsc_contents C s1 @ spsc_pushed ops = spsc_popped rs @ spsc_contents C s'" by blast
  have p1: "spsc_pushed (op # ops) = spsc_pushed [op] @ spsc_pushed ops" by (cases op) simp_all
  have p2: "spsc_popped (r # rs) = spsc_popped [r] @ spsc_popped rs"
    by (cases "(r # rs)" rule: spsc_popped.cases) simp_all
  have "spsc_contents C s @ spsc_pushed (op # ops) = spsc_popped (r # rs) @ spsc_contents C s'"
    unfolding p1 p2 using q q' by (metis append.assoc)
  then show ?case using c run r rs d d' by auto
qed

lemma spsc_run_pushes:
  assumes cap: "capacity_assert C"
  shows "in_bounds C (spsc_buffer s) (spsc_head s) (spsc_tail s) \<Longrightarrow>
         length (spsc_contents C s) + length xs < unat C \<Longrightarrow>
         \<exists>s'. spsc_run C (map SOpPush xs) s = Inr (map (\<lambda>x. SRetPush True) xs, s')
           \<and> in_bounds C (spsc_buffer s') (spsc_head s') (spsc_tail s')
           \<and> drop_count s' = drop_count s
           \<and> spsc_contents C s' = spsc_contents C s @ xs"
proof (induction xs arbitrary: s)
  case Nil
  then show ?case by simp
next
  case (Cons x xs)
  have nf: "\<not> SPSC_Full C s" using SPSC_Full_iff_length [OF cap Cons.prems(1)] Cons.prems(2) by simp
  define s1 where "s1 = s\<lparr>spsc_buffer := (spsc_buffer s)[unat (spsc_tail s) := x],
                           spsc_tail := (spsc_tail s + 1) AND Mask C\<rparr>"
  have c: "SPSC_Push C x s = Inr (True, s1)"
    using SPSC_Push_not_full [OF Cons.prems(1) nf] by (simp add: s1_def)
  have ib1: "in_bounds C (spsc_buffer s1) (spsc_head s1) (spsc_tail s1)"
    using in_bounds_step(1) [OF cap Cons.prems(1)] by (simp add: s1_def)
  have q: "spsc_contents C s1 = spsc_contents C s @ [x]"
    using slots_between_Push [OF cap Cons.prems(1), of x] nf
    by (simp add: spsc_contents_def s1_def SPSC_Full_def)
  have d: "drop_count s1 = drop_count s" by (simp add: s1_def)
  have "length (spsc_contents C s1) + length xs < unat C" using q Cons.prems(2) by simp
  from Cons.IH [OF ib1 this] obtain s' where
    "spsc_run C (map SOpPush xs) s1 = Inr (map (\<lambda>x. SRetPush True) xs, s')"
    "in_bounds C (spsc_buffer s') (spsc_head s') (spsc_tail s')"
    "drop_count s' = drop_count s1"
    "spsc_contents C s' = spsc_contents C s1 @ xs" by blast
  then show ?case using c q d by simp
qed

lemma spsc_run_pops:
  assumes cap: "capacity_assert C"
  shows "in_bounds C (spsc_buffer s) (spsc_head s) (spsc_tail s) \<Longrightarrow> spsc_contents C s = xs \<Longrightarrow>
         \<exists>s'. spsc_run C (replicate (length xs) SOpPop) s = Inr (map (\<lambda>x. SRetPop (Some x)) xs, s')
           \<and> in_bounds C (spsc_buffer s') (spsc_head s') (spsc_tail s') \<and> SPSC_Empty s'"
proof (induction xs arbitrary: s)
  case Nil
  then show ?case using SPSC_Empty_iff_contents [OF cap Nil(1)] by simp
next
  case (Cons x xs)
  have ne: "\<not> SPSC_Empty s" using SPSC_Empty_iff_contents [OF cap Cons.prems(1)] Cons.prems(2) by simp
  define s1 where "s1 = s\<lparr>spsc_head := (spsc_head s + 1) AND Mask C\<rparr>"
  have c: "SPSC_Pop C s = Inr (Some (spsc_buffer s ! unat (spsc_head s)), s1)"
    using SPSC_Pop_nonempty [OF Cons.prems(1) ne] by (simp add: s1_def)
  have ib1: "in_bounds C (spsc_buffer s1) (spsc_head s1) (spsc_tail s1)"
    using in_bounds_step(2) [OF cap Cons.prems(1)] by (simp add: s1_def)
  have q: "spsc_contents C s = spsc_buffer s ! unat (spsc_head s) # spsc_contents C s1"
    using slots_between_Pop [OF cap Cons.prems(1)] ne
    by (simp add: spsc_contents_def s1_def SPSC_Empty_def)
  with Cons.prems(2) have x: "spsc_buffer s ! unat (spsc_head s) = x"
    and q1: "spsc_contents C s1 = xs" by simp_all
  from Cons.IH [OF ib1 q1] obtain s' where
    "spsc_run C (replicate (length xs) SOpPop) s1 = Inr (map (\<lambda>x. SRetPop (Some x)) xs, s')"
    "in_bounds C (spsc_buffer s') (spsc_head s') (spsc_tail s')" "SPSC_Empty s'" by blast
  then show ?case using c x by simp
qed

text \<open>The drop counter along a run.\<close>

lemma spsc_call_drop_count:
  assumes cap: "capacity_assert C"
    and ib: "in_bounds C (spsc_buffer s) (spsc_head s) (spsc_tail s)"
  shows "\<exists>r s'. spsc_call C op s = Inr (r, s')
           \<and> in_bounds C (spsc_buffer s') (spsc_head s') (spsc_tail s')
           \<and> drop_count s' = drop_count s + of_nat (failed_pushes [r])"
  using ib
proof (cases rule: spsc_call_cases [where op = op])
  case (push_ok v)
  then show ?thesis using in_bounds_step(1) [OF cap ib] by (simp add: failed_pushes_def)
next
  case (push_drop v)
  then show ?thesis using ib by (simp add: failed_pushes_def)
next
  case pop_empty
  then show ?thesis using ib by (simp add: failed_pushes_def)
next
  case pop_ok
  then show ?thesis using in_bounds_step(2) [OF cap ib] by (simp add: failed_pushes_def)
next
  case get_drop_count
  then show ?thesis using ib by (simp add: failed_pushes_def)
next
  case empty
  then show ?thesis using ib by (simp add: failed_pushes_def)
qed

lemma spsc_run_drop_count:
  "capacity_assert C \<Longrightarrow> in_bounds C (spsc_buffer s) (spsc_head s) (spsc_tail s) \<Longrightarrow>
   \<exists>rs s'. spsc_run C ops s = Inr (rs, s') \<and> length rs = length ops
     \<and> in_bounds C (spsc_buffer s') (spsc_head s') (spsc_tail s')
     \<and> drop_count s' = drop_count s + of_nat (failed_pushes rs)"
proof (induction ops arbitrary: s)
  case Nil
  then show ?case by (simp add: failed_pushes_def)
next
  case (Cons op ops)
  from spsc_call_drop_count [OF Cons.prems, of op] obtain r s1 where
    c: "spsc_call C op s = Inr (r, s1)"
    and ib1: "in_bounds C (spsc_buffer s1) (spsc_head s1) (spsc_tail s1)"
    and d1: "drop_count s1 = drop_count s + of_nat (failed_pushes [r])" by blast
  from Cons.IH [OF Cons.prems(1) ib1] obtain rs s' where
    run: "spsc_run C ops s1 = Inr (rs, s')" and len: "length rs = length ops"
    and ib': "in_bounds C (spsc_buffer s') (spsc_head s') (spsc_tail s')"
    and d': "drop_count s' = drop_count s1 + of_nat (failed_pushes rs)" by blast
  have "failed_pushes (r # rs) = failed_pushes [r] + failed_pushes rs"
    by (simp add: failed_pushes_def)
  then have "drop_count s' = drop_count s + of_nat (failed_pushes (r # rs))"
    using d1 d' by simp
  then show ?case using c run len ib' by simp
qed

lemma spsc_run_full_pushes:
  "SPSC_Full C s \<Longrightarrow>
   spsc_run C (replicate n (SOpPush v)) s
   = Inr (replicate n (SRetPush False), s\<lparr>drop_count := drop_count s + of_nat n\<rparr>)"
proof (induction n arbitrary: s)
  case 0
  then show ?case by simp
next
  case (Suc n)
  have "SPSC_Full C (s\<lparr>drop_count := drop_count s + 1\<rparr>)" using Suc.prems by (simp add: SPSC_Full_def)
  from Suc.IH [OF this] show ?case
    using SPSC_Push_full [OF Suc.prems, of v] by (simp add: algebra_simps)
qed

subsection \<open>Invariants of the reachable states\<close>

lemma new_in_bounds:
  assumes "RingBuffer_new C d = Some rb"
  shows "capacity_assert C" "in_bounds C (buffer rb) (head rb) (tail rb)" "contents C rb = []"
    "Empty rb"
  using assms
  by (auto simp: RingBuffer_new_def in_bounds_new contents_def slots_between_empty Empty_def
           split: if_splits)

lemma spsc_new_in_bounds:
  assumes "SPSCRingBuffer_new C d = Some s"
  shows "capacity_assert C" "in_bounds C (spsc_buffer s) (spsc_head s) (spsc_tail s)"
    "spsc_contents C s = []" "SPSC_Empty s" "drop_count s = 0"
  using assms
  by (auto simp: SPSCRingBuffer_new_def in_bounds_new spsc_contents_def slots_between_empty
           SPSC_Empty_def split: if_splits)

lemma in_bounds_le_Mask:
  assumes "capacity_assert C" "in_bounds C b h t"
  shows "h \<le> C - 1" "t \<le> C - 1" "unat h < unat C" "unat t < unat C"
proof -
  have "h AND Mask C \<le> Mask C" "t AND Mask C \<le> Mask C" by (rule word_and_le1)+
  then show "h \<le> C - 1" "t \<le> C - 1"
    using in_bounds_range [OF assms] by (simp_all add: Mask_def)
  show "unat h < unat C" "unat t < unat C"
    using assms(2) by (simp_all add: in_bounds_def word_less_nat_alt)
qed

lemma reachable_invariant:
  assumes "reachable C P d rb"
  shows "capacity_assert C" "in_bounds C (buffer rb) (head rb) (tail rb)"
  using reachable_in_bounds [OF assms] by simp_all

lemma spsc_reachable_invariant:
  assumes "spsc_reachable C d s"
  shows "capacity_assert C" "in_bounds C (spsc_buffer s) (spsc_head s) (spsc_tail s)"
  using spsc_reachable_in_bounds [OF assms] by simp_all

subsection \<open>The drop counter\<close>

text \<open>
  The drop counter of a run started on a new buffer.
\<close>

lemma failed_pushes_replicate: "failed_pushes (replicate n (SRetPush False)) = n"
  by (induction n) (simp_all add: failed_pushes_def)

lemma spsc_run_new_drop_count:
  assumes "SPSCRingBuffer_new C d = Some s0"
  shows "\<exists>rs s. spsc_run C ops s0 = Inr (rs, s) \<and> length rs = length ops
           \<and> unat (GetDropCount s) = failed_pushes rs mod 2 ^ 64"
proof -
  note cap = spsc_new_in_bounds(1) [OF assms] and ib0 = spsc_new_in_bounds(2) [OF assms]
    and d0 = spsc_new_in_bounds(5) [OF assms]
  from spsc_run_drop_count [OF cap ib0, of ops] obtain rs s where
    run: "spsc_run C ops s0 = Inr (rs, s)" and len: "length rs = length ops"
    and d: "drop_count s = drop_count s0 + of_nat (failed_pushes rs)" by blast
  have "unat (GetDropCount s) = unat (of_nat (failed_pushes rs) :: size_t)"
    using d d0 by (simp add: GetDropCount_def)
  also have "\<dots> = failed_pushes rs mod 2 ^ 64" by (simp only: unat_of_nat) simp
  finally show ?thesis using run len by blast
qed

subsection \<open>Concrete states\<close>

text \<open>
  Two reachable states of a capacity-4 \<^verbatim>\<open>RingBuffer\<close> and two of a capacity-4
  \<^verbatim>\<open>SPSCRingBuffer\<close>, used as concrete instances below.
\<close>

lemma rb_example_reachable:
  "reachable 4 P (0::nat) \<lparr>buffer = [1, 2, 0, 0], tail = 2, head = 1\<rparr>"
proof -
  have new: "RingBuffer_new 4 (0::nat) = Some \<lparr>buffer = [0, 0, 0, 0], tail = 0, head = 0\<rparr>"
    by code_simp
  have run: "run 4 P [OpPush 1, OpPush 2, OpPop] \<lparr>buffer = [0, 0, 0, 0::nat], tail = 0, head = 0\<rparr>
             = Inr ([RetPush True, RetPush True, RetPop (Some 1)],
                    \<lparr>buffer = [1, 2, 0, 0], tail = 2, head = 1\<rparr>)"
    by (cases P; hypsubst; code_simp)
  show ?thesis using run_reachable [OF reachable_new [OF new] run] .
qed

lemma rb_full_reachable:
  "reachable 4 P (0::nat) \<lparr>buffer = [1, 2, 3, 0], tail = 3, head = 0\<rparr>"
proof -
  have new: "RingBuffer_new 4 (0::nat) = Some \<lparr>buffer = [0, 0, 0, 0], tail = 0, head = 0\<rparr>"
    by code_simp
  have run: "run 4 P [OpPush 1, OpPush 2, OpPush 3] \<lparr>buffer = [0, 0, 0, 0::nat], tail = 0, head = 0\<rparr>
             = Inr ([RetPush True, RetPush True, RetPush True],
                    \<lparr>buffer = [1, 2, 3, 0], tail = 3, head = 0\<rparr>)"
    by (cases P; hypsubst; code_simp)
  show ?thesis using run_reachable [OF reachable_new [OF new] run] .
qed

lemma spsc_example_reachable:
  "spsc_reachable 4 (0::nat) \<lparr>spsc_buffer = [1, 2, 0, 0], spsc_tail = 2, spsc_head = 1, drop_count = 0\<rparr>"
proof -
  have new: "SPSCRingBuffer_new 4 (0::nat)
             = Some \<lparr>spsc_buffer = [0, 0, 0, 0], spsc_tail = 0, spsc_head = 0, drop_count = 0\<rparr>"
    by code_simp
  have run: "spsc_run 4 [SOpPush 1, SOpPush 2, SOpPop]
               \<lparr>spsc_buffer = [0, 0, 0, 0::nat], spsc_tail = 0, spsc_head = 0, drop_count = 0\<rparr>
             = Inr ([SRetPush True, SRetPush True, SRetPop (Some 1)],
                    \<lparr>spsc_buffer = [1, 2, 0, 0], spsc_tail = 2, spsc_head = 1, drop_count = 0\<rparr>)"
    by code_simp
  show ?thesis using spsc_run_reachable [OF spsc_reachable_new [OF new] run] .
qed

lemma spsc_full_reachable:
  "spsc_reachable 4 (0::nat) \<lparr>spsc_buffer = [1, 2, 3, 0], spsc_tail = 3, spsc_head = 0, drop_count = 0\<rparr>"
proof -
  have new: "SPSCRingBuffer_new 4 (0::nat)
             = Some \<lparr>spsc_buffer = [0, 0, 0, 0], spsc_tail = 0, spsc_head = 0, drop_count = 0\<rparr>"
    by code_simp
  have run: "spsc_run 4 [SOpPush 1, SOpPush 2, SOpPush 3]
               \<lparr>spsc_buffer = [0, 0, 0, 0::nat], spsc_tail = 0, spsc_head = 0, drop_count = 0\<rparr>
             = Inr ([SRetPush True, SRetPush True, SRetPush True],
                    \<lparr>spsc_buffer = [1, 2, 3, 0], spsc_tail = 3, spsc_head = 0, drop_count = 0\<rparr>)"
    by code_simp
  show ?thesis using spsc_run_reachable [OF spsc_reachable_new [OF new] run] .
qed

section \<open>Verified properties\<close>

text \<open>
  Claim C1 (FIFO order). For either class, and either policy of the \<^verbatim>\<open>RingBuffer\<close>:
  pushing \<open>N \<le> Capacity - 1\<close> values into an empty buffer (a new one, or any reachable
  state with \<^verbatim>\<open>head == tail\<close>) and then popping \<open>N\<close> times, every \<^verbatim>\<open>Push\<close> returns true
  and the \<open>N\<close> calls of \<^verbatim>\<open>Pop\<close> return true with exactly the pushed values in their
  order, leaving the buffer empty. For any list of calls run in a reachable state in which
  no \<^verbatim>\<open>Push\<close> meets a full buffer, the run completes, every \<^verbatim>\<open>Push\<close> returns true, and
  the values held before followed by the pushed values, in order, are the popped values,
  in order, followed by the values held afterwards: nothing is lost, duplicated or
  reordered.
\<close>

theorem fifo_order:
  "(reachable C P d rb0 \<longrightarrow>
      (Empty rb0 \<and> length xs \<le> unat C - 1 \<longrightarrow>
         (\<exists>rb'. run C P (map OpPush xs @ replicate (length xs) OpPop) rb0
                  = Inr (map (\<lambda>x. RetPush True) xs @ map (\<lambda>x. RetPop (Some x)) xs, rb')
            \<and> Empty rb'))
      \<and> (never_full C P ops rb0 \<longrightarrow>
         (\<exists>rs rb'. run C P ops rb0 = Inr (rs, rb') \<and> RetPush False \<notin> set rs
            \<and> contents C rb0 @ pushed ops = popped rs @ contents C rb')))
   \<and> (spsc_reachable C d s0 \<longrightarrow>
      (SPSC_Empty s0 \<and> length xs \<le> unat C - 1 \<longrightarrow>
         (\<exists>s'. spsc_run C (map SOpPush xs @ replicate (length xs) SOpPop) s0
                  = Inr (map (\<lambda>x. SRetPush True) xs @ map (\<lambda>x. SRetPop (Some x)) xs, s')
            \<and> SPSC_Empty s'))
      \<and> (spsc_never_full C sops s0 \<longrightarrow>
         (\<exists>rs s'. spsc_run C sops s0 = Inr (rs, s') \<and> SRetPush False \<notin> set rs
            \<and> spsc_contents C s0 @ spsc_pushed sops = spsc_popped rs @ spsc_contents C s')))"
proof (intro conjI impI)
  assume r: "reachable C P d rb0" and a: "Empty rb0 \<and> length xs \<le> unat C - 1"
  note cap = reachable_invariant(1) [OF r] and ib0 = reachable_invariant(2) [OF r]
  have q0: "contents C rb0 = []" using Empty_iff_contents [OF cap ib0] a by simp
  have "0 < unat C" using cap by (simp add: capacity_assert_def unat_gt_0)
  then have "length (contents C rb0) + length xs < unat C" using q0 a by auto
  from run_pushes [OF cap ib0 this, of P] obtain rb1 where
    run1: "run C P (map OpPush xs) rb0 = Inr (map (\<lambda>x. RetPush True) xs, rb1)"
    and ib1: "in_bounds C (buffer rb1) (head rb1) (tail rb1)"
    and q1: "contents C rb1 = xs" using q0 by auto
  from run_pops [OF cap ib1 q1, of P] obtain rb' where
    run2: "run C P (replicate (length xs) OpPop) rb1 = Inr (map (\<lambda>x. RetPop (Some x)) xs, rb')"
    and e: "Empty rb'" by blast
  have "run C P (map OpPush xs @ replicate (length xs) OpPop) rb0
        = Inr (map (\<lambda>x. RetPush True) xs @ map (\<lambda>x. RetPop (Some x)) xs, rb')"
    by (simp add: run_append run1 run2)
  with e show "\<exists>rb'. run C P (map OpPush xs @ replicate (length xs) OpPop) rb0
                  = Inr (map (\<lambda>x. RetPush True) xs @ map (\<lambda>x. RetPop (Some x)) xs, rb')
            \<and> Empty rb'" by blast
next
  assume r: "reachable C P d rb0" and nf: "never_full C P ops rb0"
  note cap = reachable_invariant(1) [OF r] and ib0 = reachable_invariant(2) [OF r]
  from run_queue [OF cap ib0 nf] show "\<exists>rs rb'. run C P ops rb0 = Inr (rs, rb')
      \<and> RetPush False \<notin> set rs \<and> contents C rb0 @ pushed ops = popped rs @ contents C rb'" .
next
  assume r: "spsc_reachable C d s0" and a: "SPSC_Empty s0 \<and> length xs \<le> unat C - 1"
  note cap = spsc_reachable_invariant(1) [OF r] and ib0 = spsc_reachable_invariant(2) [OF r]
  have q0: "spsc_contents C s0 = []" using SPSC_Empty_iff_contents [OF cap ib0] a by simp
  have "0 < unat C" using cap by (simp add: capacity_assert_def unat_gt_0)
  then have "length (spsc_contents C s0) + length xs < unat C" using q0 a by auto
  from spsc_run_pushes [OF cap ib0 this] obtain s1 where
    run1: "spsc_run C (map SOpPush xs) s0 = Inr (map (\<lambda>x. SRetPush True) xs, s1)"
    and ib1: "in_bounds C (spsc_buffer s1) (spsc_head s1) (spsc_tail s1)"
    and q1: "spsc_contents C s1 = xs" using q0 by auto
  from spsc_run_pops [OF cap ib1 q1] obtain s' where
    run2: "spsc_run C (replicate (length xs) SOpPop) s1 = Inr (map (\<lambda>x. SRetPop (Some x)) xs, s')"
    and e: "SPSC_Empty s'" by blast
  have "spsc_run C (map SOpPush xs @ replicate (length xs) SOpPop) s0
        = Inr (map (\<lambda>x. SRetPush True) xs @ map (\<lambda>x. SRetPop (Some x)) xs, s')"
    by (simp add: spsc_run_append run1 run2)
  with e show "\<exists>s'. spsc_run C (map SOpPush xs @ replicate (length xs) SOpPop) s0
                  = Inr (map (\<lambda>x. SRetPush True) xs @ map (\<lambda>x. SRetPop (Some x)) xs, s')
            \<and> SPSC_Empty s'" by blast
next
  assume r: "spsc_reachable C d s0" and nf: "spsc_never_full C sops s0"
  note cap = spsc_reachable_invariant(1) [OF r] and ib0 = spsc_reachable_invariant(2) [OF r]
  from spsc_run_queue [OF cap ib0 nf] show "\<exists>rs s'. spsc_run C sops s0 = Inr (rs, s')
      \<and> SRetPush False \<notin> set rs
      \<and> spsc_contents C s0 @ spsc_pushed sops = spsc_popped rs @ spsc_contents C s'"
    by blast
qed

text \<open>
  The hypotheses hold at capacity 4 in the empty state with \<^verbatim>\<open>head == tail == 2\<close>, where
  the pushes wrap around the end of the array: for the values 3, 4, 5, and for an
  interleaving of five pushes and two pops that never fills the buffer.
\<close>

theorem fifo_order_witness:
  "reachable 4 Overwrite (0::nat) \<lparr>buffer = [1, 2, 0, 0], tail = 2, head = 2\<rparr>
   \<and> Empty \<lparr>buffer = [1, 2, 0, 0::nat], tail = 2, head = 2\<rparr>
   \<and> length [3, 4, 5::nat] \<le> unat (4::size_t) - 1
   \<and> (\<exists>rb'. run 4 Overwrite (map OpPush [3, 4, 5] @ replicate (length [3, 4, 5::nat]) OpPop)
                \<lparr>buffer = [1, 2, 0, 0::nat], tail = 2, head = 2\<rparr>
               = Inr (map (\<lambda>x. RetPush True) [3, 4, 5::nat] @ map (\<lambda>x. RetPop (Some x)) [3, 4, 5], rb')
         \<and> Empty rb')
   \<and> never_full 4 Overwrite [OpPush 3, OpPop, OpPush 4, OpPush 5, OpPop, OpPush 6, OpPush 7]
        \<lparr>buffer = [1, 2, 0, 0::nat], tail = 2, head = 2\<rparr>
   \<and> (\<exists>rs rb'. run 4 Overwrite [OpPush 3, OpPop, OpPush 4, OpPush 5, OpPop, OpPush 6, OpPush 7]
                   \<lparr>buffer = [1, 2, 0, 0::nat], tail = 2, head = 2\<rparr> = Inr (rs, rb')
         \<and> RetPush False \<notin> set rs
         \<and> [3, 4, 5, 6, 7] = popped rs @ contents 4 rb')
   \<and> spsc_reachable 4 (0::nat)
        \<lparr>spsc_buffer = [1, 2, 0, 0], spsc_tail = 2, spsc_head = 2, drop_count = 0\<rparr>
   \<and> SPSC_Empty \<lparr>spsc_buffer = [1, 2, 0, 0::nat], spsc_tail = 2, spsc_head = 2, drop_count = 0\<rparr>
   \<and> (\<exists>s'. spsc_run 4 (map SOpPush [3, 4, 5] @ replicate (length [3, 4, 5::nat]) SOpPop)
               \<lparr>spsc_buffer = [1, 2, 0, 0::nat], spsc_tail = 2, spsc_head = 2, drop_count = 0\<rparr>
               = Inr (map (\<lambda>x. SRetPush True) [3, 4, 5::nat] @ map (\<lambda>x. SRetPop (Some x)) [3, 4, 5], s')
         \<and> SPSC_Empty s')
   \<and> spsc_never_full 4 [SOpPush 3, SOpPop, SOpPush 4, SOpEmpty, SOpPush 5, SOpPop, SOpPush 6, SOpPush 7]
        \<lparr>spsc_buffer = [1, 2, 0, 0::nat], spsc_tail = 2, spsc_head = 2, drop_count = 0\<rparr>
   \<and> (\<exists>rs s'. spsc_run 4 [SOpPush 3, SOpPop, SOpPush 4, SOpEmpty, SOpPush 5, SOpPop, SOpPush 6, SOpPush 7]
                  \<lparr>spsc_buffer = [1, 2, 0, 0::nat], spsc_tail = 2, spsc_head = 2, drop_count = 0\<rparr>
                 = Inr (rs, s')
         \<and> SRetPush False \<notin> set rs
         \<and> [3, 4, 5, 6, 7] = spsc_popped rs @ spsc_contents 4 s')"
proof -
  have new: "RingBuffer_new 4 (0::nat) = Some \<lparr>buffer = [0, 0, 0, 0], tail = 0, head = 0\<rparr>"
    by code_simp
  have run: "run 4 Overwrite [OpPush 1, OpPush 2, OpPop, OpPop]
               \<lparr>buffer = [0, 0, 0, 0::nat], tail = 0, head = 0\<rparr>
             = Inr ([RetPush True, RetPush True, RetPop (Some 1), RetPop (Some 2)],
                    \<lparr>buffer = [1, 2, 0, 0], tail = 2, head = 2\<rparr>)"
    by code_simp
  have r: "reachable 4 Overwrite (0::nat) \<lparr>buffer = [1, 2, 0, 0], tail = 2, head = 2\<rparr>"
    using run_reachable [OF reachable_new [OF new] run] .
  have snew: "SPSCRingBuffer_new 4 (0::nat)
       = Some \<lparr>spsc_buffer = [0, 0, 0, 0], spsc_tail = 0, spsc_head = 0, drop_count = 0\<rparr>"
    by code_simp
  have srun: "spsc_run 4 [SOpPush 1, SOpPush 2, SOpPop, SOpPop]
               \<lparr>spsc_buffer = [0, 0, 0, 0::nat], spsc_tail = 0, spsc_head = 0, drop_count = 0\<rparr>
             = Inr ([SRetPush True, SRetPush True, SRetPop (Some 1), SRetPop (Some 2)],
                    \<lparr>spsc_buffer = [1, 2, 0, 0], spsc_tail = 2, spsc_head = 2, drop_count = 0\<rparr>)"
    by code_simp
  have sr: "spsc_reachable 4 (0::nat)
        \<lparr>spsc_buffer = [1, 2, 0, 0], spsc_tail = 2, spsc_head = 2, drop_count = 0\<rparr>"
    using spsc_run_reachable [OF spsc_reachable_new [OF snew] srun] .
  have e: "Empty \<lparr>buffer = [1, 2, 0, 0::nat], tail = 2, head = 2\<rparr>" by code_simp
  have se: "SPSC_Empty \<lparr>spsc_buffer = [1, 2, 0, 0::nat], spsc_tail = 2, spsc_head = 2, drop_count = 0\<rparr>"
    by code_simp
  have len: "length [3, 4, 5::nat] \<le> unat (4::size_t) - 1" by simp
  have nf: "never_full 4 Overwrite [OpPush 3, OpPop, OpPush 4, OpPush 5, OpPop, OpPush 6, OpPush 7]
        \<lparr>buffer = [1, 2, 0, 0::nat], tail = 2, head = 2\<rparr>" by code_simp
  have snf: "spsc_never_full 4 [SOpPush 3, SOpPop, SOpPush 4, SOpEmpty, SOpPush 5, SOpPop, SOpPush 6, SOpPush 7]
        \<lparr>spsc_buffer = [1, 2, 0, 0::nat], spsc_tail = 2, spsc_head = 2, drop_count = 0\<rparr>" by code_simp
  have p: "contents 4 \<lparr>buffer = [1, 2, 0, 0::nat], tail = 2, head = 2\<rparr>
             @ pushed [OpPush 3, OpPop, OpPush 4, OpPush 5, OpPop, OpPush 6, OpPush 7]
           = [3, 4, 5, 6, 7]" by code_simp
  have sp: "spsc_contents 4 \<lparr>spsc_buffer = [1, 2, 0, 0::nat], spsc_tail = 2, spsc_head = 2, drop_count = 0\<rparr>
             @ spsc_pushed [SOpPush 3, SOpPop, SOpPush 4, SOpEmpty, SOpPush 5, SOpPop, SOpPush 6, SOpPush 7]
           = [3, 4, 5, 6, 7]" by code_simp
  from fifo_order [of 4 Overwrite "0::nat" "\<lparr>buffer = [1, 2, 0, 0], tail = 2, head = 2\<rparr>" "[3, 4, 5]"
      "[OpPush 3, OpPop, OpPush 4, OpPush 5, OpPop, OpPush 6, OpPush 7]"
      "\<lparr>spsc_buffer = [1, 2, 0, 0], spsc_tail = 2, spsc_head = 2, drop_count = 0\<rparr>"
      "[SOpPush 3, SOpPop, SOpPush 4, SOpEmpty, SOpPush 5, SOpPop, SOpPush 6, SOpPush 7]"]
    r sr e se len nf snf
  show ?thesis unfolding p sp by blast
qed

text \<open>
  Claim C2 (Overwrite policy). In every reachable state of the \<^verbatim>\<open>RingBuffer\<close> with
  policy \<^verbatim>\<open>Overwrite\<close> in which the buffer is full, \<^verbatim>\<open>Push(v)\<close> returns true, moves
  \<^verbatim>\<open>head\<close> on by exactly one slot, stores \<open>v\<close> in the slot at the old \<^verbatim>\<open>tail\<close> and leaves
  \<^verbatim>\<open>Size()\<close> at \<open>Capacity - 1\<close>. The queue held afterwards is the old queue followed by
  \<open>v\<close>, without its oldest element: exactly one element is evicted, the oldest. At
  capacity 4, after the pushes of 1, 2, 3 and 4 the next \<^verbatim>\<open>Pop\<close> returns 2 and \<^verbatim>\<open>Size()\<close>
  is then 2.
\<close>

theorem overwrite_full_push:
  "(reachable C Overwrite d rb \<and> Full C rb \<longrightarrow>
      (\<exists>rb'. Push C Overwrite v rb = Inr (True, rb')
         \<and> head rb' = (head rb + 1) AND Mask C
         \<and> buffer rb' = (buffer rb)[unat (tail rb) := v] \<and> unat (tail rb) < length (buffer rb)
         \<and> tail rb' = (tail rb + 1) AND Mask C
         \<and> Size C rb' = Size C rb \<and> Size C rb = C - 1
         \<and> contents C rb' = tl (contents C rb @ [v])))
   \<and> RingBuffer_new 4 (0::nat) = Some \<lparr>buffer = [0, 0, 0, 0], tail = 0, head = 0\<rparr>
   \<and> run 4 Overwrite [OpPush 1, OpPush 2, OpPush 3, OpPush 4, OpPop]
        \<lparr>buffer = [0, 0, 0, 0::nat], tail = 0, head = 0\<rparr>
      = Inr ([RetPush True, RetPush True, RetPush True, RetPush True, RetPop (Some 2)],
             \<lparr>buffer = [1, 2, 3, 4], tail = 0, head = 2\<rparr>)
   \<and> Size 4 \<lparr>buffer = [1, 2, 3, 4::nat], tail = 0, head = 2\<rparr> = 2"
proof (intro conjI impI)
  assume a: "reachable C Overwrite d rb \<and> Full C rb"
  then have "reachable C Overwrite d rb" by simp
  note cap = reachable_invariant(1) [OF this] and ib = reachable_invariant(2) [OF this]
  from a have full: "Full C rb" by simp
  define rb' where "rb' = rb\<lparr>head := (head rb + 1) AND Mask C,
                              buffer := (buffer rb)[unat (tail rb) := v],
                              tail := (tail rb + 1) AND Mask C\<rparr>"
  have "Push C Overwrite v rb = Inr (True, rb')"
    using Push_full_Overwrite [OF ib full] by (simp add: rb'_def)
  moreover have "Size C rb' = Size C rb"
    using Size_Overwrite [OF cap] by (simp add: Size_def rb'_def)
  moreover have "Size C rb = C - 1"
    using Full_iff_Size [OF cap ib] full by (simp add: Mask_def)
  moreover have "contents C rb' = tl (contents C rb @ [v])"
  proof (cases "C = 1")
    case True
    then have "Size C rb = 0" using \<open>Size C rb = C - 1\<close> by simp
    then have "length (contents C rb') = 0" "contents C rb = []"
      using \<open>Size C rb' = Size C rb\<close> length_contents [of C rb'] length_contents [of C rb]
      by simp_all
    then show ?thesis by simp
  next
    case False
    then have "Mask C \<noteq> 0" by (simp add: Mask_def)
    then have "contents C rb \<noteq> []"
      using \<open>Size C rb = C - 1\<close> length_contents [of C rb]
      by (auto simp: Mask_def unat_eq_0)
    moreover have "contents C rb' = tl (contents C rb) @ [v]"
      using slots_between_Overwrite [OF cap ib] full False
      by (simp add: contents_def rb'_def Full_def)
    ultimately show ?thesis by simp
  qed
  moreover have "unat (tail rb) < length (buffer rb)" using in_bounds_index [OF ib] by simp
  ultimately show "\<exists>rb'. Push C Overwrite v rb = Inr (True, rb')
         \<and> head rb' = (head rb + 1) AND Mask C
         \<and> buffer rb' = (buffer rb)[unat (tail rb) := v] \<and> unat (tail rb) < length (buffer rb)
         \<and> tail rb' = (tail rb + 1) AND Mask C
         \<and> Size C rb' = Size C rb \<and> Size C rb = C - 1
         \<and> contents C rb' = tl (contents C rb @ [v])"
    by (simp add: rb'_def)
qed code_simp+

text \<open>
  The hypotheses hold of the capacity-4 buffer holding 1, 2, 3.
\<close>

theorem overwrite_full_push_witness:
  "reachable 4 Overwrite (0::nat) \<lparr>buffer = [1, 2, 3, 0], tail = 3, head = 0\<rparr>
   \<and> Full 4 \<lparr>buffer = [1, 2, 3, 0::nat], tail = 3, head = 0\<rparr>
   \<and> (\<exists>rb'. Push 4 Overwrite 4 \<lparr>buffer = [1, 2, 3, 0::nat], tail = 3, head = 0\<rparr> = Inr (True, rb')
         \<and> Size 4 rb' = Size 4 \<lparr>buffer = [1, 2, 3, 0::nat], tail = 3, head = 0\<rparr>
         \<and> Size 4 \<lparr>buffer = [1, 2, 3, 0::nat], tail = 3, head = 0\<rparr> = 4 - 1
         \<and> contents 4 rb' = tl (contents 4 \<lparr>buffer = [1, 2, 3, 0::nat], tail = 3, head = 0\<rparr> @ [4]))"
proof -
  have full: "Full 4 \<lparr>buffer = [1, 2, 3, 0::nat], tail = 3, head = 0\<rparr>" by code_simp
  from overwrite_full_push [of 4 0 "\<lparr>buffer = [1, 2, 3, 0::nat], tail = 3, head = 0\<rparr>" 4]
    rb_full_reachable [of Overwrite] full
  show ?thesis by blast
qed

text \<open>
  Claim C3 (usable capacity), as the code has it. For every accepted capacity \<open>C\<close> and
  either class, \<open>C - 1\<close> consecutive pushes into an empty buffer all return true;
  afterwards the buffer holds exactly the pushed values, \<^verbatim>\<open>Size()\<close> is \<open>C - 1\<close>, the buffer is
  full, and \<^verbatim>\<open>Empty()\<close> is false unless \<open>C = 1\<close>. The next push meets the full buffer and
  follows the policy: \<^verbatim>\<open>Reject\<close> returns false and changes nothing, \<^verbatim>\<open>Overwrite\<close> returns
  true and leaves \<^verbatim>\<open>Size()\<close> at \<open>C - 1\<close>, the \<^verbatim>\<open>SPSCRingBuffer\<close> returns false and counts
  a drop. No reachable state holds more than \<open>C - 1\<close> elements. At capacity 16, fifteen
  pushes return true, \<^verbatim>\<open>Size()\<close> is 15 and \<^verbatim>\<open>Empty()\<close> is false.
\<close>

theorem usable_capacity:
  "(reachable C P d rb0 \<and> Empty rb0 \<and> length xs = unat C - 1 \<longrightarrow>
      (\<exists>rb'. run C P (map OpPush xs) rb0 = Inr (map (\<lambda>x. RetPush True) xs, rb')
         \<and> Size C rb' = C - 1 \<and> contents C rb' = xs \<and> (C \<noteq> 1 \<longrightarrow> \<not> Empty rb') \<and> Full C rb'
         \<and> (P = Reject \<longrightarrow> Push C P v rb' = Inr (False, rb'))
         \<and> (P = Overwrite \<longrightarrow> (\<exists>rb''. Push C P v rb' = Inr (True, rb'') \<and> Size C rb'' = C - 1))))
   \<and> (reachable C P d rb \<longrightarrow> Size C rb \<le> C - 1 \<and> length (contents C rb) \<le> unat C - 1)
   \<and> (spsc_reachable C d s0 \<and> SPSC_Empty s0 \<and> length xs = unat C - 1 \<longrightarrow>
      (\<exists>s'. spsc_run C (map SOpPush xs) s0 = Inr (map (\<lambda>x. SRetPush True) xs, s')
         \<and> spsc_contents C s' = xs \<and> (C \<noteq> 1 \<longrightarrow> \<not> SPSC_Empty s') \<and> SPSC_Full C s'
         \<and> SPSC_Push C v s' = Inr (False, s'\<lparr>drop_count := drop_count s' + 1\<rparr>)))
   \<and> (spsc_reachable C d s \<longrightarrow> length (spsc_contents C s) \<le> unat C - 1)
   \<and> RingBuffer_new 16 (0::nat) = Some \<lparr>buffer = replicate 16 0, tail = 0, head = 0\<rparr>
   \<and> run 16 Reject (map OpPush [0..<15]) \<lparr>buffer = replicate 16 (0::nat), tail = 0, head = 0\<rparr>
       = Inr (replicate 15 (RetPush True), \<lparr>buffer = [0..<15] @ [0], tail = 15, head = 0\<rparr>)
   \<and> Size 16 \<lparr>buffer = [0..<15] @ [0], tail = 15, head = 0\<rparr> = 15
   \<and> \<not> Empty \<lparr>buffer = [0..<15] @ [0], tail = 15, head = 0\<rparr>"
proof (intro conjI impI)
  assume a: "reachable C P d rb0 \<and> Empty rb0 \<and> length xs = unat C - 1"
  then have r0: "reachable C P d rb0" and e0: "Empty rb0" and len: "length xs = unat C - 1"
    by simp_all
  note cap = reachable_invariant(1) [OF r0] and ib0 = reachable_invariant(2) [OF r0]
  have q0: "contents C rb0 = []" using Empty_iff_contents [OF cap ib0] e0 by simp
  have C0: "0 < unat C" using cap by (simp add: capacity_assert_def unat_gt_0)
  then have "length (contents C rb0) + length xs < unat C" using q0 len by simp
  from run_pushes [OF cap ib0 this, of P] obtain rb' where
    run: "run C P (map OpPush xs) rb0 = Inr (map (\<lambda>x. RetPush True) xs, rb')"
    and ib: "in_bounds C (buffer rb') (head rb') (tail rb')"
    and q: "contents C rb' = xs" using q0 by auto
  have full: "Full C rb'" using Full_iff_length [OF cap ib] q len by simp
  then have size: "Size C rb' = C - 1" using Full_iff_Size [OF cap ib] by (simp add: Mask_def)
  have ne: "C \<noteq> 1 \<longrightarrow> \<not> Empty rb'"
  proof
    assume "C \<noteq> 1"
    then have "Mask C \<noteq> 0" by (simp add: Mask_def)
    then show "\<not> Empty rb'" using Empty_iff_Size [OF cap ib] size by (simp add: Mask_def)
  qed
  have rej: "P = Reject \<longrightarrow> Push C P v rb' = Inr (False, rb')"
    using Push_full_Reject [OF full] by simp
  have ovw: "P = Overwrite \<longrightarrow> (\<exists>rb''. Push C P v rb' = Inr (True, rb'') \<and> Size C rb'' = C - 1)"
    using Push_full_Overwrite [OF ib full, of v] Size_Overwrite [OF cap, of "tail rb'" "head rb'"] size
    by (simp add: Size_def)
  show "\<exists>rb'. run C P (map OpPush xs) rb0 = Inr (map (\<lambda>x. RetPush True) xs, rb')
         \<and> Size C rb' = C - 1 \<and> contents C rb' = xs \<and> (C \<noteq> 1 \<longrightarrow> \<not> Empty rb') \<and> Full C rb'
         \<and> (P = Reject \<longrightarrow> Push C P v rb' = Inr (False, rb'))
         \<and> (P = Overwrite \<longrightarrow> (\<exists>rb''. Push C P v rb' = Inr (True, rb'') \<and> Size C rb'' = C - 1))"
    using run size q ne full rej ovw by blast
next
  assume r: "reachable C P d rb"
  note cap = reachable_invariant(1) [OF r]
  show "Size C rb \<le> C - 1"
    using Size_le_Mask [of "tail rb" "head rb" C] by (simp add: Size_def Mask_def)
  then show "length (contents C rb) \<le> unat C - 1"
    using unat_Mask [OF cap] by (simp add: length_contents word_le_nat_alt Mask_def)
next
  assume a: "spsc_reachable C d s0 \<and> SPSC_Empty s0 \<and> length xs = unat C - 1"
  then have r0: "spsc_reachable C d s0" and e0: "SPSC_Empty s0" and len: "length xs = unat C - 1"
    by simp_all
  note cap = spsc_reachable_invariant(1) [OF r0] and ib0 = spsc_reachable_invariant(2) [OF r0]
  have q0: "spsc_contents C s0 = []" using SPSC_Empty_iff_contents [OF cap ib0] e0 by simp
  have C0: "0 < unat C" using cap by (simp add: capacity_assert_def unat_gt_0)
  then have "length (spsc_contents C s0) + length xs < unat C" using q0 len by simp
  from spsc_run_pushes [OF cap ib0 this] obtain s' where
    run: "spsc_run C (map SOpPush xs) s0 = Inr (map (\<lambda>x. SRetPush True) xs, s')"
    and ib: "in_bounds C (spsc_buffer s') (spsc_head s') (spsc_tail s')"
    and q: "spsc_contents C s' = xs" using q0 by auto
  have full: "SPSC_Full C s'" using SPSC_Full_iff_length [OF cap ib] q len by simp
  have ne: "C \<noteq> 1 \<longrightarrow> \<not> SPSC_Empty s'"
  proof
    assume "C \<noteq> 1"
    then have "unat C \<noteq> 1" by (simp add: word_unat_eq_iff)
    then have "xs \<noteq> []" using len C0 by auto
    then show "\<not> SPSC_Empty s'" using SPSC_Empty_iff_contents [OF cap ib] q by simp
  qed
  show "\<exists>s'. spsc_run C (map SOpPush xs) s0 = Inr (map (\<lambda>x. SRetPush True) xs, s')
         \<and> spsc_contents C s' = xs \<and> (C \<noteq> 1 \<longrightarrow> \<not> SPSC_Empty s') \<and> SPSC_Full C s'
         \<and> SPSC_Push C v s' = Inr (False, s'\<lparr>drop_count := drop_count s' + 1\<rparr>)"
    using run q ne full SPSC_Push_full [OF full, of v] by blast
next
  assume r: "spsc_reachable C d s"
  note cap = spsc_reachable_invariant(1) [OF r]
  have "(spsc_tail s - spsc_head s) AND Mask C \<le> Mask C" by (rule Size_le_Mask)
  then show "length (spsc_contents C s) \<le> unat C - 1"
    using unat_Mask [OF cap] by (simp add: length_spsc_contents word_le_nat_alt)
qed code_simp+

text \<open>
  The hypotheses hold at capacity 4 of the new buffer with the values 1, 2, 3, under
  either policy and for the \<^verbatim>\<open>SPSCRingBuffer\<close>.
\<close>

theorem usable_capacity_witness:
  "reachable 4 Reject (0::nat) \<lparr>buffer = [0, 0, 0, 0], tail = 0, head = 0\<rparr>
   \<and> Empty \<lparr>buffer = [0, 0, 0, 0::nat], tail = 0, head = 0\<rparr>
   \<and> length [1, 2, 3::nat] = unat (4::size_t) - 1
   \<and> (\<exists>rb'. run 4 Reject (map OpPush [1, 2, 3]) \<lparr>buffer = [0, 0, 0, 0::nat], tail = 0, head = 0\<rparr>
               = Inr (map (\<lambda>x. RetPush True) [1, 2, 3::nat], rb')
         \<and> Size 4 rb' = 4 - 1 \<and> \<not> Empty rb' \<and> Push 4 Reject 4 rb' = Inr (False, rb'))
   \<and> reachable 4 Overwrite (0::nat) \<lparr>buffer = [0, 0, 0, 0], tail = 0, head = 0\<rparr>
   \<and> (\<exists>rb'. run 4 Overwrite (map OpPush [1, 2, 3]) \<lparr>buffer = [0, 0, 0, 0::nat], tail = 0, head = 0\<rparr>
               = Inr (map (\<lambda>x. RetPush True) [1, 2, 3::nat], rb')
         \<and> (\<exists>rb''. Push 4 Overwrite 4 rb' = Inr (True, rb'') \<and> Size 4 rb'' = 4 - 1))
   \<and> reachable 4 Reject (0::nat) \<lparr>buffer = [1, 2, 0, 0], tail = 2, head = 1\<rparr>
   \<and> Size 4 \<lparr>buffer = [1, 2, 0, 0::nat], tail = 2, head = 1\<rparr> \<le> 4 - 1
   \<and> spsc_reachable 4 (0::nat)
        \<lparr>spsc_buffer = [0, 0, 0, 0], spsc_tail = 0, spsc_head = 0, drop_count = 0\<rparr>
   \<and> SPSC_Empty \<lparr>spsc_buffer = [0, 0, 0, 0::nat], spsc_tail = 0, spsc_head = 0, drop_count = 0\<rparr>
   \<and> (\<exists>s'. spsc_run 4 (map SOpPush [1, 2, 3])
                \<lparr>spsc_buffer = [0, 0, 0, 0::nat], spsc_tail = 0, spsc_head = 0, drop_count = 0\<rparr>
               = Inr (map (\<lambda>x. SRetPush True) [1, 2, 3::nat], s')
         \<and> \<not> SPSC_Empty s' \<and> SPSC_Push 4 4 s' = Inr (False, s'\<lparr>drop_count := drop_count s' + 1\<rparr>))
   \<and> spsc_reachable 4 (0::nat)
        \<lparr>spsc_buffer = [1, 2, 0, 0], spsc_tail = 2, spsc_head = 1, drop_count = 0\<rparr>
   \<and> length (spsc_contents 4
        \<lparr>spsc_buffer = [1, 2, 0, 0::nat], spsc_tail = 2, spsc_head = 1, drop_count = 0\<rparr>) \<le> unat (4::size_t) - 1"
proof -
  have new: "RingBuffer_new 4 (0::nat) = Some \<lparr>buffer = [0, 0, 0, 0], tail = 0, head = 0\<rparr>"
    by code_simp
  have snew: "SPSCRingBuffer_new 4 (0::nat)
       = Some \<lparr>spsc_buffer = [0, 0, 0, 0], spsc_tail = 0, spsc_head = 0, drop_count = 0\<rparr>"
    by code_simp
  have e: "Empty \<lparr>buffer = [0, 0, 0, 0::nat], tail = 0, head = 0\<rparr>" by code_simp
  have se: "SPSC_Empty \<lparr>spsc_buffer = [0, 0, 0, 0::nat], spsc_tail = 0, spsc_head = 0, drop_count = 0\<rparr>"
    by code_simp
  have len: "length [1, 2, 3::nat] = unat (4::size_t) - 1" by simp
  have ne: "(4::size_t) \<noteq> 1" by simp
  from usable_capacity [of 4 Reject "0::nat" "\<lparr>buffer = [0, 0, 0, 0], tail = 0, head = 0\<rparr>" "[1, 2, 3]"
      4 "\<lparr>buffer = [1, 2, 0, 0::nat], tail = 2, head = 1\<rparr>"
      "\<lparr>spsc_buffer = [0, 0, 0, 0], spsc_tail = 0, spsc_head = 0, drop_count = 0\<rparr>"
      "\<lparr>spsc_buffer = [1, 2, 0, 0::nat], spsc_tail = 2, spsc_head = 1, drop_count = 0\<rparr>"]
    usable_capacity [of 4 Overwrite "0::nat" "\<lparr>buffer = [0, 0, 0, 0], tail = 0, head = 0\<rparr>" "[1, 2, 3]"
      4]
    reachable_new [OF new, of Reject] reachable_new [OF new, of Overwrite]
    spsc_reachable_new [OF snew] e se len ne rb_example_reachable [of Reject] spsc_example_reachable
  show ?thesis by blast
qed

text \<open>
  The claim as written has \<^verbatim>\<open>Empty()\<close> false after the \<open>C - 1\<close> pushes at every power of
  two. At capacity 1 these are no pushes at all, \<^verbatim>\<open>Size()\<close> is \<open>0 = C - 1\<close>, and
  \<^verbatim>\<open>Empty()\<close> is true.
\<close>

theorem capacity_one_stays_empty:
  "RingBuffer_new 1 (0::nat) = Some \<lparr>buffer = [0], tail = 0, head = 0\<rparr>
   \<and> (1::size_t) = 2 ^ 0
   \<and> length ([] :: nat list) = unat (1::size_t) - 1
   \<and> run 1 Reject (map OpPush []) \<lparr>buffer = [0::nat], tail = 0, head = 0\<rparr>
       = Inr ([], \<lparr>buffer = [0], tail = 0, head = 0\<rparr>)
   \<and> Size 1 \<lparr>buffer = [0::nat], tail = 0, head = 0\<rparr> = 1 - 1
   \<and> Empty \<lparr>buffer = [0::nat], tail = 0, head = 0\<rparr>"
  by (intro conjI) code_simp+

text \<open>
  Claim C4 (Reject policy). In every reachable state of the \<^verbatim>\<open>RingBuffer\<close> with policy
  \<^verbatim>\<open>Reject\<close> in which the buffer is full (\<^verbatim>\<open>next_tail == head\<close>), \<^verbatim>\<open>Push(v)\<close> returns
  false and the buffer after the call is the buffer before it: \<^verbatim>\<open>head\<close>, \<^verbatim>\<open>tail\<close> and
  every slot are unchanged, so \<^verbatim>\<open>Size()\<close> is too and \<open>v\<close> is not stored. At capacity 4 the
  pushes of 1, 2 and 3 return true, the push of 4 returns false, and \<^verbatim>\<open>Size()\<close> is 3.
\<close>

theorem reject_full_push:
  "(reachable C Reject d rb \<and> Full C rb \<longrightarrow> Push C Reject v rb = Inr (False, rb))
   \<and> RingBuffer_new 4 (0::nat) = Some \<lparr>buffer = [0, 0, 0, 0], tail = 0, head = 0\<rparr>
   \<and> run 4 Reject [OpPush 1, OpPush 2, OpPush 3, OpPush 4]
        \<lparr>buffer = [0, 0, 0, 0::nat], tail = 0, head = 0\<rparr>
      = Inr ([RetPush True, RetPush True, RetPush True, RetPush False],
             \<lparr>buffer = [1, 2, 3, 0], tail = 3, head = 0\<rparr>)
   \<and> Size 4 \<lparr>buffer = [1, 2, 3, 0::nat], tail = 3, head = 0\<rparr> = 3"
proof (intro conjI impI)
  assume "reachable C Reject d rb \<and> Full C rb"
  then show "Push C Reject v rb = Inr (False, rb)" by (simp add: Push_full_Reject)
qed code_simp+

text \<open>
  The hypotheses hold of the capacity-4 buffer holding 1, 2, 3.
\<close>

theorem reject_full_push_witness:
  "reachable 4 Reject (0::nat) \<lparr>buffer = [1, 2, 3, 0], tail = 3, head = 0\<rparr>
   \<and> Full 4 \<lparr>buffer = [1, 2, 3, 0::nat], tail = 3, head = 0\<rparr>
   \<and> Push 4 Reject 4 \<lparr>buffer = [1, 2, 3, 0::nat], tail = 3, head = 0\<rparr>
       = Inr (False, \<lparr>buffer = [1, 2, 3, 0], tail = 3, head = 0\<rparr>)"
proof -
  have full: "Full 4 \<lparr>buffer = [1, 2, 3, 0::nat], tail = 3, head = 0\<rparr>" by code_simp
  from reject_full_push [of 4 0 "\<lparr>buffer = [1, 2, 3, 0::nat], tail = 3, head = 0\<rparr>" 4]
    rb_full_reachable [of Reject] full
  show ?thesis by blast
qed

text \<open>
  Claim C5 (drop accounting of the \<^verbatim>\<open>SPSCRingBuffer\<close>), as the code has it. Every list
  of calls run on a new buffer completes, and \<^verbatim>\<open>GetDropCount()\<close> afterwards is the number
  of \<^verbatim>\<open>Push\<close> calls that returned false, modulo \<open>2 ^ 64\<close>: \<^verbatim>\<open>drop_count\<close> is a
  \<^verbatim>\<open>std::size_t\<close> and \<^verbatim>\<open>fetch_add\<close> wraps. In every reachable state \<^verbatim>\<open>Push\<close> returns false
  exactly when the buffer is full; it then adds 1 to \<^verbatim>\<open>drop_count\<close> and changes nothing
  else, and a \<^verbatim>\<open>Push\<close> that returns true, a \<^verbatim>\<open>Pop\<close>, \<^verbatim>\<open>Empty\<close> and \<^verbatim>\<open>GetDropCount\<close> leave
  \<^verbatim>\<open>drop_count\<close> as it was. At capacity 8, after seven pushes the eighth returns false
  and \<^verbatim>\<open>GetDropCount()\<close> is 1.
\<close>

theorem drop_accounting:
  "(SPSCRingBuffer_new C d = Some s0 \<longrightarrow>
      (\<exists>rs s'. spsc_run C ops s0 = Inr (rs, s') \<and> length rs = length ops
         \<and> unat (GetDropCount s') = failed_pushes rs mod 2 ^ 64))
   \<and> (spsc_reachable C d s \<longrightarrow>
      (SPSC_Full C s \<longrightarrow> SPSC_Push C v s = Inr (False, s\<lparr>drop_count := drop_count s + 1\<rparr>))
      \<and> (\<not> SPSC_Full C s \<longrightarrow>
           (\<exists>s'. SPSC_Push C v s = Inr (True, s') \<and> drop_count s' = drop_count s))
      \<and> (\<exists>x s'. SPSC_Pop C s = Inr (x, s') \<and> drop_count s' = drop_count s)
      \<and> spsc_call C SOpEmpty s = Inr (SRetEmpty (SPSC_Empty s), s)
      \<and> spsc_call C SOpGetDropCount s = Inr (SRetGetDropCount (drop_count s), s))
   \<and> SPSCRingBuffer_new 8 (0::nat)
       = Some \<lparr>spsc_buffer = replicate 8 0, spsc_tail = 0, spsc_head = 0, drop_count = 0\<rparr>
   \<and> spsc_run 8 (map SOpPush [1, 2, 3, 4, 5, 6, 7] @ [SOpPush 8])
        \<lparr>spsc_buffer = replicate 8 (0::nat), spsc_tail = 0, spsc_head = 0, drop_count = 0\<rparr>
       = Inr (replicate 7 (SRetPush True) @ [SRetPush False],
              \<lparr>spsc_buffer = [1, 2, 3, 4, 5, 6, 7, 0], spsc_tail = 7, spsc_head = 0, drop_count = 1\<rparr>)
   \<and> GetDropCount \<lparr>spsc_buffer = [1, 2, 3, 4, 5, 6, 7, 0::nat], spsc_tail = 7, spsc_head = 0,
                     drop_count = 1\<rparr> = 1"
proof (intro conjI impI)
  assume "SPSCRingBuffer_new C d = Some s0"
  then show "\<exists>rs s'. spsc_run C ops s0 = Inr (rs, s') \<and> length rs = length ops
         \<and> unat (GetDropCount s') = failed_pushes rs mod 2 ^ 64"
    by (rule spsc_run_new_drop_count)
next
  assume "SPSC_Full C s"
  then show "SPSC_Push C v s = Inr (False, s\<lparr>drop_count := drop_count s + 1\<rparr>)"
    by (rule SPSC_Push_full)
next
  assume r: "spsc_reachable C d s" and nf: "\<not> SPSC_Full C s"
  show "\<exists>s'. SPSC_Push C v s = Inr (True, s') \<and> drop_count s' = drop_count s"
    using SPSC_Push_not_full [OF spsc_reachable_invariant(2) [OF r] nf, of v] by simp
next
  assume r: "spsc_reachable C d s"
  show "\<exists>x s'. SPSC_Pop C s = Inr (x, s') \<and> drop_count s' = drop_count s"
    using SPSC_Pop_empty [of s C] SPSC_Pop_nonempty [OF spsc_reachable_invariant(2) [OF r]]
    by (cases "SPSC_Empty s") simp_all
next
  show "spsc_call C SOpEmpty s = Inr (SRetEmpty (SPSC_Empty s), s)" by simp
next
  show "spsc_call C SOpGetDropCount s = Inr (SRetGetDropCount (drop_count s), s)"
    by (simp add: GetDropCount_def)
qed code_simp+

text \<open>
  The hypotheses hold for a run at capacity 2 with two dropped pushes, and at capacity 4
  in a state that is not full and in one that is.
\<close>

theorem drop_accounting_witness:
  "SPSCRingBuffer_new 2 (0::nat)
     = Some \<lparr>spsc_buffer = [0, 0], spsc_tail = 0, spsc_head = 0, drop_count = 0\<rparr>
   \<and> (\<exists>rs s'. spsc_run 2 [SOpPush 1, SOpPush 2, SOpPop, SOpPush 3, SOpPush 4, SOpGetDropCount]
                  \<lparr>spsc_buffer = [0, 0::nat], spsc_tail = 0, spsc_head = 0, drop_count = 0\<rparr>
                 = Inr (rs, s')
         \<and> unat (GetDropCount s') = failed_pushes rs mod 2 ^ 64)
   \<and> spsc_reachable 4 (0::nat)
        \<lparr>spsc_buffer = [1, 2, 0, 0], spsc_tail = 2, spsc_head = 1, drop_count = 0\<rparr>
   \<and> \<not> SPSC_Full 4 \<lparr>spsc_buffer = [1, 2, 0, 0::nat], spsc_tail = 2, spsc_head = 1, drop_count = 0\<rparr>
   \<and> (\<exists>s'. SPSC_Push 4 9 \<lparr>spsc_buffer = [1, 2, 0, 0::nat], spsc_tail = 2, spsc_head = 1, drop_count = 0\<rparr>
               = Inr (True, s')
         \<and> drop_count s'
             = drop_count \<lparr>spsc_buffer = [1, 2, 0, 0::nat], spsc_tail = 2, spsc_head = 1, drop_count = 0\<rparr>)
   \<and> spsc_reachable 4 (0::nat)
        \<lparr>spsc_buffer = [1, 2, 3, 0], spsc_tail = 3, spsc_head = 0, drop_count = 0\<rparr>
   \<and> SPSC_Full 4 \<lparr>spsc_buffer = [1, 2, 3, 0::nat], spsc_tail = 3, spsc_head = 0, drop_count = 0\<rparr>
   \<and> SPSC_Push 4 9 \<lparr>spsc_buffer = [1, 2, 3, 0::nat], spsc_tail = 3, spsc_head = 0, drop_count = 0\<rparr>
       = Inr (False, \<lparr>spsc_buffer = [1, 2, 3, 0], spsc_tail = 3, spsc_head = 0, drop_count = 1\<rparr>)"
proof -
  have new: "SPSCRingBuffer_new 2 (0::nat)
     = Some \<lparr>spsc_buffer = [0, 0], spsc_tail = 0, spsc_head = 0, drop_count = 0\<rparr>" by code_simp
  have nf: "\<not> SPSC_Full 4 \<lparr>spsc_buffer = [1, 2, 0, 0::nat], spsc_tail = 2, spsc_head = 1, drop_count = 0\<rparr>"
    by code_simp
  have full: "SPSC_Full 4 \<lparr>spsc_buffer = [1, 2, 3, 0::nat], spsc_tail = 3, spsc_head = 0, drop_count = 0\<rparr>"
    by code_simp
  have u: "\<lparr>spsc_buffer = [1, 2, 3, 0::nat], spsc_tail = 3, spsc_head = 0, drop_count = 0\<rparr>
             \<lparr>drop_count := drop_count \<lparr>spsc_buffer = [1, 2, 3, 0::nat], spsc_tail = 3, spsc_head = 0,
                                          drop_count = 0\<rparr> + 1\<rparr>
           = \<lparr>spsc_buffer = [1, 2, 3, 0], spsc_tail = 3, spsc_head = 0, drop_count = 1\<rparr>" by simp
  from drop_accounting [of 2 "0::nat" "\<lparr>spsc_buffer = [0, 0], spsc_tail = 0, spsc_head = 0, drop_count = 0\<rparr>"
      "[SOpPush 1, SOpPush 2, SOpPop, SOpPush 3, SOpPush 4, SOpGetDropCount]"]
    drop_accounting [of 4 "0::nat" _ _
      "\<lparr>spsc_buffer = [1, 2, 0, 0::nat], spsc_tail = 2, spsc_head = 1, drop_count = 0\<rparr>" 9]
    drop_accounting [of 4 "0::nat" _ _
      "\<lparr>spsc_buffer = [1, 2, 3, 0::nat], spsc_tail = 3, spsc_head = 0, drop_count = 0\<rparr>" 9]
    new nf full spsc_example_reachable spsc_full_reachable
  show ?thesis unfolding u by blast
qed

text \<open>
  The claim as written has \<^verbatim>\<open>GetDropCount()\<close> equal to the number of failed pushes after
  every sequence of calls. At capacity 2, one push fills the buffer; after \<open>2 ^ 64\<close> further
  pushes, all returning false, the counter has wrapped around to 0.
\<close>

theorem drop_count_wraps:
  "SPSCRingBuffer_new 2 (0::nat)
     = Some \<lparr>spsc_buffer = [0, 0], spsc_tail = 0, spsc_head = 0, drop_count = 0\<rparr>
   \<and> spsc_run 2 (SOpPush 7 # replicate (2 ^ 64) (SOpPush 7))
        \<lparr>spsc_buffer = [0, 0::nat], spsc_tail = 0, spsc_head = 0, drop_count = 0\<rparr>
       = Inr (SRetPush True # replicate (2 ^ 64) (SRetPush False),
              \<lparr>spsc_buffer = [7, 0], spsc_tail = 1, spsc_head = 0, drop_count = 0\<rparr>)
   \<and> failed_pushes (SRetPush True # replicate (2 ^ 64) (SRetPush False) :: nat spsc_ret list) = 2 ^ 64
   \<and> GetDropCount \<lparr>spsc_buffer = [7, 0::nat], spsc_tail = 1, spsc_head = 0, drop_count = 0\<rparr> = 0
   \<and> unat (GetDropCount \<lparr>spsc_buffer = [7, 0::nat], spsc_tail = 1, spsc_head = 0, drop_count = 0\<rparr>)
       \<noteq> failed_pushes (SRetPush True # replicate (2 ^ 64) (SRetPush False) :: nat spsc_ret list)"
proof (intro conjI)
  show "SPSCRingBuffer_new 2 (0::nat)
     = Some \<lparr>spsc_buffer = [0, 0], spsc_tail = 0, spsc_head = 0, drop_count = 0\<rparr>" by code_simp
  have first: "spsc_call 2 (SOpPush 7)
        \<lparr>spsc_buffer = [0, 0::nat], spsc_tail = 0, spsc_head = 0, drop_count = 0\<rparr>
      = Inr (SRetPush True, \<lparr>spsc_buffer = [7, 0], spsc_tail = 1, spsc_head = 0, drop_count = 0\<rparr>)"
    by code_simp
  have full: "SPSC_Full 2 \<lparr>spsc_buffer = [7, 0::nat], spsc_tail = 1, spsc_head = 0, drop_count = 0\<rparr>"
    by code_simp
  have wrap: "(of_nat (2 ^ 64) :: size_t) = 0" by simp
  have rest: "spsc_run 2 (replicate (2 ^ 64) (SOpPush 7))
        \<lparr>spsc_buffer = [7, 0::nat], spsc_tail = 1, spsc_head = 0, drop_count = 0\<rparr>
      = Inr (replicate (2 ^ 64) (SRetPush False),
             \<lparr>spsc_buffer = [7, 0], spsc_tail = 1, spsc_head = 0, drop_count = 0\<rparr>)"
    using spsc_run_full_pushes [OF full, of "2 ^ 64" 7] unfolding wrap by simp
  show "spsc_run 2 (SOpPush 7 # replicate (2 ^ 64) (SOpPush 7))
        \<lparr>spsc_buffer = [0, 0::nat], spsc_tail = 0, spsc_head = 0, drop_count = 0\<rparr>
       = Inr (SRetPush True # replicate (2 ^ 64) (SRetPush False),
              \<lparr>spsc_buffer = [7, 0], spsc_tail = 1, spsc_head = 0, drop_count = 0\<rparr>)"
    by (simp only: spsc_run.simps first rest sum.case prod.case)
  show n: "failed_pushes (SRetPush True # replicate (2 ^ 64) (SRetPush False) :: nat spsc_ret list) = 2 ^ 64"
    using failed_pushes_replicate [of "2 ^ 64"] by (simp add: failed_pushes_def)
  show "unat (GetDropCount \<lparr>spsc_buffer = [7, 0::nat], spsc_tail = 1, spsc_head = 0, drop_count = 0\<rparr>)
       \<noteq> failed_pushes (SRetPush True # replicate (2 ^ 64) (SRetPush False) :: nat spsc_ret list)"
    unfolding n by (simp add: GetDropCount_def)
  show "GetDropCount \<lparr>spsc_buffer = [7, 0::nat], spsc_tail = 1, spsc_head = 0, drop_count = 0\<rparr> = 0"
    by (simp add: GetDropCount_def)
qed

text \<open>
  Claim C6 (capacity contract), as the code has it. For both classes the \<^verbatim>\<open>static_assert\<close>
  rejects \<^verbatim>\<open>Capacity\<close> exactly when it is not a power of two: 0 and every value with more
  than one bit set are rejected, and every \<open>2 ^ k\<close> with \<open>k < 64\<close> is accepted, \<open>1 = 2 ^ 0\<close>
  included. No state of an object exists at a rejected capacity.
\<close>

theorem capacity_contract:
  "(RingBuffer_new C d = None \<longleftrightarrow> \<not> (\<exists>k<64. C = 2 ^ k))
   \<and> (SPSCRingBuffer_new C d = None \<longleftrightarrow> \<not> (\<exists>k<64. C = 2 ^ k))
   \<and> (reachable C P d rb \<longrightarrow> (\<exists>k<64. C = 2 ^ k))
   \<and> (spsc_reachable C d s \<longrightarrow> (\<exists>k<64. C = 2 ^ k))"
proof -
  have iff: "capacity_assert C \<longleftrightarrow> (\<exists>k<64. C = 2 ^ k)"
    using capacity_assert_pow2 [of C] pow2_capacity_assert by blast
  show ?thesis
    using iff reachable_invariant(1) [of C P d rb] spsc_reachable_invariant(1) [of C d s]
    by (auto simp: RingBuffer_new_def SPSCRingBuffer_new_def)
qed

text \<open>
  Capacity 4 is accepted and has reachable states; capacity 6 is rejected.
\<close>

theorem capacity_contract_witness:
  "reachable 4 Reject (0::nat) \<lparr>buffer = [1, 2, 0, 0], tail = 2, head = 1\<rparr>
   \<and> spsc_reachable 4 (0::nat)
        \<lparr>spsc_buffer = [1, 2, 0, 0], spsc_tail = 2, spsc_head = 1, drop_count = 0\<rparr>
   \<and> (\<exists>k<64. (4::size_t) = 2 ^ k)
   \<and> RingBuffer_new 6 (0::nat) = None \<and> SPSCRingBuffer_new 6 (0::nat) = None
   \<and> \<not> (\<exists>k<64. (6::size_t) = 2 ^ k)"
proof -
  have n6: "RingBuffer_new 6 (0::nat) = None" by code_simp
  have s6: "SPSCRingBuffer_new 6 (0::nat) = None" by code_simp
  from capacity_contract [of 4 "0::nat" Reject "\<lparr>buffer = [1, 2, 0, 0::nat], tail = 2, head = 1\<rparr>"
      "\<lparr>spsc_buffer = [1, 2, 0, 0::nat], spsc_tail = 2, spsc_head = 1, drop_count = 0\<rparr>"]
    capacity_contract [of 6 "0::nat"]
    rb_example_reachable [of Reject] spsc_example_reachable n6 s6
  show ?thesis by blast
qed

text \<open>
  The claim as written also wants every capacity below 2 rejected. Capacity 1 passes the
  assertion of both classes, and the object can be called: it is empty and full at once.
\<close>

theorem capacity_one_accepted:
  "(1::size_t) < 2
   \<and> RingBuffer_new 1 (0::nat) = Some \<lparr>buffer = [0], tail = 0, head = 0\<rparr>
   \<and> SPSCRingBuffer_new 1 (0::nat)
       = Some \<lparr>spsc_buffer = [0], spsc_tail = 0, spsc_head = 0, drop_count = 0\<rparr>
   \<and> Push 1 Reject 5 \<lparr>buffer = [0::nat], tail = 0, head = 0\<rparr>
       = Inr (False, \<lparr>buffer = [0], tail = 0, head = 0\<rparr>)
   \<and> Pop 1 \<lparr>buffer = [0::nat], tail = 0, head = 0\<rparr>
       = Inr (None, \<lparr>buffer = [0], tail = 0, head = 0\<rparr>)"
  by (intro conjI) code_simp+

text \<open>
  Claim C7 (consistency of \<^verbatim>\<open>Empty\<close> and \<^verbatim>\<open>Size\<close>). In every state of the
  \<^verbatim>\<open>RingBuffer\<close> reached from a freshly constructed buffer by \<^verbatim>\<open>Push\<close> and \<^verbatim>\<open>Pop\<close>
  calls, under either policy, \<^verbatim>\<open>Empty()\<close> returns true if and only if \<^verbatim>\<open>Size()\<close>
  returns 0.
\<close>

theorem empty_iff_size_zero:
  "reachable C P d rb \<Longrightarrow> Empty rb \<longleftrightarrow> Size C rb = 0"
  using reachable_in_bounds [of C P d rb] Empty_iff_Size [of C rb] by blast

text \<open>
  The hypothesis holds of the capacity-4 buffer after one push, which is not empty and
  has size 1.
\<close>

theorem empty_iff_size_zero_witness:
  "reachable 4 Overwrite (0::nat) \<lparr>buffer = [1, 0, 0, 0], tail = 1, head = 0\<rparr>
   \<and> (Empty \<lparr>buffer = [1, 0, 0, 0::nat], tail = 1, head = 0\<rparr>
        \<longleftrightarrow> Size 4 \<lparr>buffer = [1, 0, 0, 0::nat], tail = 1, head = 0\<rparr> = 0)"
proof -
  have new: "RingBuffer_new 4 (0::nat) = Some \<lparr>buffer = [0, 0, 0, 0], tail = 0, head = 0\<rparr>"
    by code_simp
  have run: "run 4 Overwrite [OpPush 1] \<lparr>buffer = [0, 0, 0, 0::nat], tail = 0, head = 0\<rparr>
             = Inr ([RetPush True], \<lparr>buffer = [1, 0, 0, 0], tail = 1, head = 0\<rparr>)"
    by code_simp
  have r: "reachable 4 Overwrite (0::nat) \<lparr>buffer = [1, 0, 0, 0], tail = 1, head = 0\<rparr>"
    using run_reachable [OF reachable_new [OF new] run] .
  from r empty_iff_size_zero [OF r] show ?thesis by blast
qed

text \<open>
  Claim C8 (\<^verbatim>\<open>Front\<close>). In every reachable state of the \<^verbatim>\<open>RingBuffer\<close> that is not empty,
  \<^verbatim>\<open>Front()\<close> returns the element in the slot at \<^verbatim>\<open>head\<close>, an existing slot; it is the
  oldest element held and the value that \<^verbatim>\<open>Pop\<close> called in that state returns. \<^verbatim>\<open>Front\<close>
  is a \<^verbatim>\<open>const\<close> member and yields a value only, so the buffer is as before. On an empty
  buffer its \<^verbatim>\<open>assert\<close> fails; no value is returned.
\<close>

theorem front_is_next_pop:
  "(reachable C P d rb \<and> \<not> Empty rb \<longrightarrow>
      Front rb = Inr (buffer rb ! unat (head rb)) \<and> unat (head rb) < length (buffer rb)
      \<and> Pop C rb = Inr (Some (buffer rb ! unat (head rb)), rb\<lparr>head := (head rb + 1) AND Mask C\<rparr>)
      \<and> hd (contents C rb) = buffer rb ! unat (head rb))
   \<and> (Empty rb \<longrightarrow> Front rb = Inl AssertionFailed)"
proof (intro conjI impI)
  assume a: "reachable C P d rb \<and> \<not> Empty rb"
  then have "reachable C P d rb" by simp
  note cap = reachable_invariant(1) [OF this] and ib = reachable_invariant(2) [OF this]
  from a have ne: "\<not> Empty rb" by simp
  show "unat (head rb) < length (buffer rb)" using in_bounds_index [OF ib] by simp
  then show "Front rb = Inr (buffer rb ! unat (head rb))" using ne by (simp add: Front_def slot_read_def)
  show "Pop C rb = Inr (Some (buffer rb ! unat (head rb)), rb\<lparr>head := (head rb + 1) AND Mask C\<rparr>)"
    using Pop_nonempty [OF ib ne] .
  show "hd (contents C rb) = buffer rb ! unat (head rb)"
    using slots_between_Pop [OF cap ib] ne by (simp add: contents_def Empty_def)
next
  assume "Empty rb"
  then show "Front rb = Inl AssertionFailed" by (simp add: Front_def)
qed

text \<open>
  The first hypothesis holds at capacity 4 after two pushes and a pop, where \<^verbatim>\<open>Front\<close>
  and the next \<^verbatim>\<open>Pop\<close> both give 2; the second holds of the new buffer.
\<close>

theorem front_is_next_pop_witness:
  "reachable 4 Reject (0::nat) \<lparr>buffer = [1, 2, 0, 0], tail = 2, head = 1\<rparr>
   \<and> \<not> Empty \<lparr>buffer = [1, 2, 0, 0::nat], tail = 2, head = 1\<rparr>
   \<and> Front \<lparr>buffer = [1, 2, 0, 0::nat], tail = 2, head = 1\<rparr> = Inr 2
   \<and> Pop 4 \<lparr>buffer = [1, 2, 0, 0::nat], tail = 2, head = 1\<rparr>
       = Inr (Some 2, \<lparr>buffer = [1, 2, 0, 0], tail = 2, head = 2\<rparr>)
   \<and> Empty \<lparr>buffer = [0, 0, 0, 0::nat], tail = 0, head = 0\<rparr>
   \<and> Front \<lparr>buffer = [0, 0, 0, 0::nat], tail = 0, head = 0\<rparr> = Inl AssertionFailed"
proof -
  have ne: "\<not> Empty \<lparr>buffer = [1, 2, 0, 0::nat], tail = 2, head = 1\<rparr>" by code_simp
  have e: "Empty \<lparr>buffer = [0, 0, 0, 0::nat], tail = 0, head = 0\<rparr>" by code_simp
  have v: "buffer \<lparr>buffer = [1, 2, 0, 0::nat], tail = 2, head = 1\<rparr>
             ! unat (head \<lparr>buffer = [1, 2, 0, 0::nat], tail = 2, head = 1\<rparr>) = 2" by code_simp
  have u: "\<lparr>buffer = [1, 2, 0, 0::nat], tail = 2, head = 1\<rparr>
             \<lparr>head := (head \<lparr>buffer = [1, 2, 0, 0::nat], tail = 2, head = 1\<rparr> + 1) AND Mask 4\<rparr>
           = \<lparr>buffer = [1, 2, 0, 0], tail = 2, head = 2\<rparr>" by code_simp
  from front_is_next_pop [of 4 Reject 0 "\<lparr>buffer = [1, 2, 0, 0::nat], tail = 2, head = 1\<rparr>"]
    front_is_next_pop [of 4 Reject 0 "\<lparr>buffer = [0, 0, 0, 0::nat], tail = 0, head = 0\<rparr>"]
    rb_example_reachable [of Reject] ne e
  show ?thesis unfolding v u by blast
qed

text \<open>
  Claim C9 (index and size bounds). In every reachable state of either class, \<^verbatim>\<open>head\<close>
  and \<^verbatim>\<open>tail\<close> lie in \<open>[0, Capacity - 1]\<close>, \<^verbatim>\<open>Size()\<close> returns a value in
  \<open>[0, Capacity - 1]\<close>, the array has \<^verbatim>\<open>Capacity\<close> slots, and \<^verbatim>\<open>Push\<close>, \<^verbatim>\<open>Pop\<close> and
  \<^verbatim>\<open>Front\<close> never access a slot outside it: \<^verbatim>\<open>Push\<close> and \<^verbatim>\<open>Pop\<close> return normally, and
  the only fault of \<^verbatim>\<open>Front\<close> is its assertion.
\<close>

theorem indices_in_bounds:
  "(reachable C P d rb \<longrightarrow>
      head rb \<le> C - 1 \<and> tail rb \<le> C - 1 \<and> Size C rb \<le> C - 1
      \<and> length (buffer rb) = unat C \<and> unat (head rb) < unat C \<and> unat (tail rb) < unat C
      \<and> (\<exists>b rb'. Push C P v rb = Inr (b, rb')) \<and> (\<exists>x rb'. Pop C rb = Inr (x, rb')) \<and> Front rb \<noteq> Inl OutOfBounds)
   \<and> (spsc_reachable C d s \<longrightarrow>
      spsc_head s \<le> C - 1 \<and> spsc_tail s \<le> C - 1
      \<and> length (spsc_buffer s) = unat C \<and> unat (spsc_head s) < unat C \<and> unat (spsc_tail s) < unat C
      \<and> (\<exists>b s'. SPSC_Push C v s = Inr (b, s')) \<and> (\<exists>x s'. SPSC_Pop C s = Inr (x, s')))"
proof (intro conjI impI)
  assume r: "reachable C P d rb"
  note cap = reachable_invariant(1) [OF r] and ib = reachable_invariant(2) [OF this]
  show "head rb \<le> C - 1" "tail rb \<le> C - 1" "unat (head rb) < unat C" "unat (tail rb) < unat C"
    using in_bounds_le_Mask [OF cap ib] by simp_all
  show "Size C rb \<le> C - 1" using Size_le_Mask [of "tail rb" "head rb" C] by (simp add: Size_def Mask_def)
  show "length (buffer rb) = unat C" using ib by (simp add: in_bounds_def)
  show "\<exists>b rb'. Push C P v rb = Inr (b, rb')"
    using Push_not_full [OF ib, of P v] Push_full_Reject [of C rb v] Push_full_Overwrite [OF ib, of v]
    by (cases "Full C rb"; cases P) blast+
  show "\<exists>x rb'. Pop C rb = Inr (x, rb')"
    using Pop_empty [of rb C] Pop_nonempty [OF ib] by (cases "Empty rb") blast+
  show "Front rb \<noteq> Inl OutOfBounds"
    using in_bounds_index [OF ib] by (simp add: Front_def slot_read_def)
next
  assume r: "spsc_reachable C d s"
  note cap = spsc_reachable_invariant(1) [OF this] and ib = spsc_reachable_invariant(2) [OF this]
  show "spsc_head s \<le> C - 1" "spsc_tail s \<le> C - 1" "unat (spsc_head s) < unat C"
    "unat (spsc_tail s) < unat C"
    using in_bounds_le_Mask [OF cap ib] by simp_all
  show "length (spsc_buffer s) = unat C" using ib by (simp add: in_bounds_def)
  show "\<exists>b s'. SPSC_Push C v s = Inr (b, s')"
    using SPSC_Push_not_full [OF ib, of v] SPSC_Push_full [of C s v]
    by (cases "SPSC_Full C s") blast+
  show "\<exists>x s'. SPSC_Pop C s = Inr (x, s')"
    using SPSC_Pop_empty [of s C] SPSC_Pop_nonempty [OF ib] by (cases "SPSC_Empty s") blast+
qed

text \<open>
  Both hypotheses hold at capacity 4 after two pushes and a pop.
\<close>

theorem indices_in_bounds_witness:
  "reachable 4 Reject (0::nat) \<lparr>buffer = [1, 2, 0, 0], tail = 2, head = 1\<rparr>
   \<and> spsc_reachable 4 (0::nat)
        \<lparr>spsc_buffer = [1, 2, 0, 0], spsc_tail = 2, spsc_head = 1, drop_count = 0\<rparr>
   \<and> head \<lparr>buffer = [1, 2, 0, 0::nat], tail = 2, head = 1\<rparr> \<le> 4 - 1
   \<and> Size 4 \<lparr>buffer = [1, 2, 0, 0::nat], tail = 2, head = 1\<rparr> \<le> 4 - 1
   \<and> (\<exists>b rb'. Push 4 Reject 9 \<lparr>buffer = [1, 2, 0, 0::nat], tail = 2, head = 1\<rparr> = Inr (b, rb'))
   \<and> spsc_tail \<lparr>spsc_buffer = [1, 2, 0, 0::nat], spsc_tail = 2, spsc_head = 1, drop_count = 0\<rparr> \<le> 4 - 1
   \<and> (\<exists>x s'. SPSC_Pop 4 \<lparr>spsc_buffer = [1, 2, 0, 0::nat], spsc_tail = 2, spsc_head = 1, drop_count = 0\<rparr>
                = Inr (x, s'))"
  using indices_in_bounds [of 4 Reject 0 "\<lparr>buffer = [1, 2, 0, 0::nat], tail = 2, head = 1\<rparr>" 9
      "\<lparr>spsc_buffer = [1, 2, 0, 0::nat], spsc_tail = 2, spsc_head = 1, drop_count = 0\<rparr>"]
    rb_example_reachable [of Reject] spsc_example_reachable
  by blast

text \<open>
  Claim C10 (frame of a successful push). In every reachable state of either class in
  which the buffer is not full, \<^verbatim>\<open>Push(v)\<close> returns true and the object after the call
  differs from the one before only in the slot at the old \<^verbatim>\<open>tail\<close>, which is an existing
  slot and now holds \<open>v\<close>, and in \<^verbatim>\<open>tail\<close>, which is \<open>(tail + 1) & Mask\<close>. \<^verbatim>\<open>head\<close>, every
  other slot and, in the \<^verbatim>\<open>SPSCRingBuffer\<close>, \<^verbatim>\<open>drop_count\<close> are as before.
\<close>

theorem push_frame:
  "(reachable C P d rb \<and> \<not> Full C rb \<longrightarrow>
      Push C P v rb = Inr (True, rb\<lparr>buffer := (buffer rb)[unat (tail rb) := v],
                                     tail := (tail rb + 1) AND Mask C\<rparr>)
      \<and> unat (tail rb) < length (buffer rb))
   \<and> (spsc_reachable C d s \<and> \<not> SPSC_Full C s \<longrightarrow>
      SPSC_Push C v s = Inr (True, s\<lparr>spsc_buffer := (spsc_buffer s)[unat (spsc_tail s) := v],
                                     spsc_tail := (spsc_tail s + 1) AND Mask C\<rparr>)
      \<and> unat (spsc_tail s) < length (spsc_buffer s))"
proof (intro conjI impI)
  assume a: "reachable C P d rb \<and> \<not> Full C rb"
  then have "reachable C P d rb" by simp
  note ib = reachable_invariant(2) [OF this]
  show "Push C P v rb = Inr (True, rb\<lparr>buffer := (buffer rb)[unat (tail rb) := v],
                                      tail := (tail rb + 1) AND Mask C\<rparr>)"
    using Push_not_full [OF ib] a by simp
  show "unat (tail rb) < length (buffer rb)" using in_bounds_index [OF ib] by simp
next
  assume a: "spsc_reachable C d s \<and> \<not> SPSC_Full C s"
  then have "spsc_reachable C d s" by simp
  note ib = spsc_reachable_invariant(2) [OF this]
  show "SPSC_Push C v s = Inr (True, s\<lparr>spsc_buffer := (spsc_buffer s)[unat (spsc_tail s) := v],
                                     spsc_tail := (spsc_tail s + 1) AND Mask C\<rparr>)"
    using SPSC_Push_not_full [OF ib] a by simp
  show "unat (spsc_tail s) < length (spsc_buffer s)" using in_bounds_index [OF ib] by simp
qed

text \<open>
  Both hypotheses hold at capacity 4 after two pushes and a pop; the push of 9 then
  writes slot 2 and moves \<^verbatim>\<open>tail\<close> from 2 to 3.
\<close>

theorem push_frame_witness:
  "reachable 4 Overwrite (0::nat) \<lparr>buffer = [1, 2, 0, 0], tail = 2, head = 1\<rparr>
   \<and> \<not> Full 4 \<lparr>buffer = [1, 2, 0, 0::nat], tail = 2, head = 1\<rparr>
   \<and> Push 4 Overwrite 9 \<lparr>buffer = [1, 2, 0, 0::nat], tail = 2, head = 1\<rparr>
       = Inr (True, \<lparr>buffer = [1, 2, 9, 0], tail = 3, head = 1\<rparr>)
   \<and> spsc_reachable 4 (0::nat)
        \<lparr>spsc_buffer = [1, 2, 0, 0], spsc_tail = 2, spsc_head = 1, drop_count = 0\<rparr>
   \<and> \<not> SPSC_Full 4 \<lparr>spsc_buffer = [1, 2, 0, 0::nat], spsc_tail = 2, spsc_head = 1, drop_count = 0\<rparr>
   \<and> SPSC_Push 4 9 \<lparr>spsc_buffer = [1, 2, 0, 0::nat], spsc_tail = 2, spsc_head = 1, drop_count = 0\<rparr>
       = Inr (True, \<lparr>spsc_buffer = [1, 2, 9, 0], spsc_tail = 3, spsc_head = 1, drop_count = 0\<rparr>)"
proof -
  have nf: "\<not> Full 4 \<lparr>buffer = [1, 2, 0, 0::nat], tail = 2, head = 1\<rparr>" by code_simp
  have snf: "\<not> SPSC_Full 4 \<lparr>spsc_buffer = [1, 2, 0, 0::nat], spsc_tail = 2, spsc_head = 1, drop_count = 0\<rparr>"
    by code_simp
  have e1: "\<lparr>buffer = [1, 2, 0, 0::nat], tail = 2, head = 1\<rparr>
              \<lparr>buffer := (buffer \<lparr>buffer = [1, 2, 0, 0::nat], tail = 2, head = 1\<rparr>)
                           [unat (tail \<lparr>buffer = [1, 2, 0, 0::nat], tail = 2, head = 1\<rparr>) := 9],
                tail := (tail \<lparr>buffer = [1, 2, 0, 0::nat], tail = 2, head = 1\<rparr> + 1) AND Mask 4\<rparr>
            = \<lparr>buffer = [1, 2, 9, 0], tail = 3, head = 1\<rparr>" by code_simp
  have e2: "\<lparr>spsc_buffer = [1, 2, 0, 0::nat], spsc_tail = 2, spsc_head = 1, drop_count = 0\<rparr>
              \<lparr>spsc_buffer := (spsc_buffer \<lparr>spsc_buffer = [1, 2, 0, 0::nat], spsc_tail = 2, spsc_head = 1, drop_count = 0\<rparr>)
                           [unat (spsc_tail \<lparr>spsc_buffer = [1, 2, 0, 0::nat], spsc_tail = 2, spsc_head = 1, drop_count = 0\<rparr>) := 9],
                spsc_tail := (spsc_tail \<lparr>spsc_buffer = [1, 2, 0, 0::nat], spsc_tail = 2, spsc_head = 1, drop_count = 0\<rparr> + 1) AND Mask 4\<rparr>
            = \<lparr>spsc_buffer = [1, 2, 9, 0], spsc_tail = 3, spsc_head = 1, drop_count = 0\<rparr>" by code_simp
  from push_frame [of 4 Overwrite 0 "\<lparr>buffer = [1, 2, 0, 0::nat], tail = 2, head = 1\<rparr>" 9
      "\<lparr>spsc_buffer = [1, 2, 0, 0::nat], spsc_tail = 2, spsc_head = 1, drop_count = 0\<rparr>"]
    rb_example_reachable [of Overwrite] spsc_example_reachable nf snf
  show ?thesis unfolding e1 e2 by blast
qed

end
